theory Spec2Isabelle
  imports Complex_Main "HOL-Library.Word"
begin

section \<open>Bytes and text\<close>

text \<open>
  Python \<open>bytes\<close> are lists of 8-bit words. A Python \<open>str\<close> is a list of Unicode code
  points, each a natural number; \<open>py ''...''\<close> writes an ASCII literal as such a list.
\<close>

type_synonym byte = "8 word"
type_synonym bytes = "byte list"
type_synonym str = "nat list"

abbreviation (input) py :: "string \<Rightarrow> str" where
  "py s \<equiv> map of_char s"

text \<open>
  \<open>str.encode()\<close>: UTF-8. \<open>None\<close> is \<open>UnicodeEncodeError\<close> (a surrogate code point);
  numbers from 0x110000 on are no code points and are refused as well.
\<close>

definition utf8_encode :: "nat \<Rightarrow> bytes option" where
  "utf8_encode c =
     (if c < 0x80 then Some [of_nat c]
      else if c < 0x800 then Some [of_nat (0xC0 + c div 64), of_nat (0x80 + c mod 64)]
      else if 0xD800 \<le> c \<and> c < 0xE000 then None
      else if c < 0x10000 then
        Some [of_nat (0xE0 + c div 4096), of_nat (0x80 + c div 64 mod 64),
              of_nat (0x80 + c mod 64)]
      else if c < 0x110000 then
        Some [of_nat (0xF0 + c div 262144), of_nat (0x80 + c div 4096 mod 64),
              of_nat (0x80 + c div 64 mod 64), of_nat (0x80 + c mod 64)]
      else None)"

fun encode :: "str \<Rightarrow> bytes option" where
  "encode [] = Some []"
| "encode (c # cs) =
     (case utf8_encode c of
        None \<Rightarrow> None
      | Some b \<Rightarrow> (case encode cs of None \<Rightarrow> None | Some bs \<Rightarrow> Some (b @ bs)))"

text \<open>\<open>bytes.hex()\<close>: two lowercase hexadecimal digits for each byte.\<close>

definition hexdigit :: "nat \<Rightarrow> nat" where
  "hexdigit n = py ''0123456789abcdef'' ! n"

definition hex_byte :: "byte \<Rightarrow> str" where
  "hex_byte b = [hexdigit (unat b div 16), hexdigit (unat b mod 16)]"

definition hex :: "bytes \<Rightarrow> str" where
  "hex bs = concat (map hex_byte bs)"

text \<open>\<open>s.startswith(p)\<close> and \<open>s.endswith(p)\<close>.\<close>

definition startswith :: "'a list \<Rightarrow> 'a list \<Rightarrow> bool" where
  "startswith s p = (take (length p) s = p)"

definition endswith :: "'a list \<Rightarrow> 'a list \<Rightarrow> bool" where
  "endswith s p = (length p \<le> length s \<and> drop (length s - length p) s = p)"

section \<open>Status replies: \<open>parse_response\<close>\<close>

definition status_codes :: "(bytes \<times> str) list" where
  "status_codes =
     [([0x30], py ''Operation successful.''),
      ([0x31], py ''Write or read error.''),
      ([0x32], py ''Command format error.''),
      ([0x34], py ''Invalid command.''),
      ([0x39], py ''Invalid card swipe when in write mode.'')]"

text \<open>
  \<open>response[-1:]\<close> is \<open>drop (length response - 1) response\<close>;
  \<open>status_codes.get(status, default)\<close> is the lookup with a default.
\<close>

definition parse_response :: "bytes \<Rightarrow> str" where
  "parse_response response =
     (if startswith response [0x1B] \<and> endswith response [0x1B, 0x30] then
        py ''Operation successful.''
      else if startswith response [0x1B] \<and> length response > 2 then
        (let status = drop (length response - 1) response in
         case map_of status_codes status of
           Some message \<Rightarrow> message
         | None \<Rightarrow> py ''Unknown status: '' @ hex status)
      else py ''No valid response received.'')"

text \<open>
  The outcome variants of the specification, and the message that the program shows for
  each of them.
\<close>

datatype ResponseOutcome =
  Success | ReadWriteError | FormatError | InvalidCommand | InvalidSwipeInWriteMode
| UnknownStatus byte | NoResponse

fun outcome_message :: "ResponseOutcome \<Rightarrow> str" where
  "outcome_message Success = py ''Operation successful.''"
| "outcome_message ReadWriteError = py ''Write or read error.''"
| "outcome_message FormatError = py ''Command format error.''"
| "outcome_message InvalidCommand = py ''Invalid command.''"
| "outcome_message InvalidSwipeInWriteMode = py ''Invalid card swipe when in write mode.''"
| "outcome_message (UnknownStatus b) = py ''Unknown status: '' @ hex [b]"
| "outcome_message NoResponse = py ''No valid response received.''"

text \<open>
  The classification as the specification words it: the fixed table of status bytes, and the
  three rules in their order.
\<close>

definition status_table_spec :: "byte \<Rightarrow> ResponseOutcome" where
  "status_table_spec b =
     (if b = 0x30 then Success
      else if b = 0x31 then ReadWriteError
      else if b = 0x32 then FormatError
      else if b = 0x34 then InvalidCommand
      else if b = 0x39 then InvalidSwipeInWriteMode
      else UnknownStatus b)"

definition classify_spec :: "bytes \<Rightarrow> ResponseOutcome" where
  "classify_spec bs =
     (if bs \<noteq> [] \<and> hd bs = 0x1B \<and> 2 \<le> length bs \<and> bs ! (length bs - 2) = 0x1B
         \<and> last bs = 0x30 then Success
      else if bs \<noteq> [] \<and> hd bs = 0x1B \<and> 2 < length bs then status_table_spec (last bs)
      else NoResponse)"

section \<open>Command frames\<close>

text \<open>
  The command strings as the program builds them: \<open>read_card\<close> sends the literal
  \<open>'\x1Br'\<close>; \<open>write_card\<close> formats the three track variables into its frame. Each is sent
  as \<open>command.encode()\<close>.
\<close>

definition read_command :: str where
  "read_command = [0x1B, of_char CHR ''r'']"

definition write_command :: "str \<Rightarrow> str \<Rightarrow> str \<Rightarrow> str" where
  "write_command track1 track2 track3 =
     [0x1B, of_char CHR ''w'', 0x1B, of_char CHR ''s'', 0x1B, 0x01] @ track1
     @ [0x1B, 0x02] @ track2 @ [0x1B, 0x03] @ track3 @ [of_char CHR ''?'', 0x1C]"

section \<open>Luhn checksum and the card number generators\<close>

text \<open>
  \<open>int(d)\<close> for a decimal digit character \<open>d\<close>. Every string that reaches it in this
  program is built from the digit prefixes of the tables and from random decimal digits
  (lemma \<open>candidate_digits\<close> below), so only the code points 48 to 57 matter.
\<close>

definition int_digit :: "nat \<Rightarrow> nat" where
  "int_digit d = d - 48"

definition is_digit :: "nat \<Rightarrow> bool" where
  "is_digit d = (48 \<le> d \<and> d \<le> 57)"

text \<open>\<open>str(n)\<close> for a natural number, and the format \<open>{n:02}\<close>.\<close>

fun decimal :: "nat \<Rightarrow> str" where
  "decimal n = (if n < 10 then [48 + n] else decimal (n div 10) @ [48 + n mod 10])"

declare decimal.simps [simp del]

definition format02 :: "nat \<Rightarrow> str" where
  "format02 n = (if n < 10 then 48 # decimal n else decimal n)"

text \<open>
  The weighted sum of \<open>msre206_debug.py\<close>, lines 89 and 90:
  \<open>sum(int(d) if i % 2 == 0 else sum(divmod(int(d) * 2, 10))
       for i, d in enumerate(reversed(card_number)))\<close>.
\<close>

definition weight :: "nat \<times> nat \<Rightarrow> nat" where
  "weight p =
     (case p of (i, d) \<Rightarrow>
        if i mod 2 = 0 then int_digit d
        else (int_digit d * 2) div 10 + (int_digit d * 2) mod 10)"

definition weighted_sum :: "str \<Rightarrow> nat" where
  "weighted_sum card_number = sum_list (map weight (enumerate 0 (rev card_number)))"

text \<open>
  Modelled from the spec: \<open>verify\<close> and \<open>append\<close> come from the imported package
  \<open>luhn\<close>, which is not under \<open>src/\<close>. Verification recomputes the same weighted sum over
  all digits of the full number, the last digit at even offset, and accepts iff the total
  is 0 modulo 10. \<open>append\<close> computes and appends the check digit so that the full number is
  valid: the digit that completes the weighted sum of the number, with the place of the
  check digit counted, to a multiple of 10.
\<close>

definition verify :: "str \<Rightarrow> bool" where
  "verify s = (weighted_sum s mod 10 = 0)"

definition append_luhn :: "str \<Rightarrow> str" where
  "append_luhn s = s @ decimal ((10 - weighted_sum (s @ py ''0'') mod 10) mod 10)"

text \<open>
  The random source is the sequence of raw values that the successive calls of the module
  \<open>random\<close> consume; each call takes the first value and leaves the rest.
  \<open>randint a b\<close> lies in \<open>a..b\<close>; \<open>choice xs\<close> is an element of the non-empty \<open>xs\<close>.
\<close>

type_synonym rng = "nat \<Rightarrow> nat"

definition rest :: "rng \<Rightarrow> rng" where
  "rest r = (\<lambda>k. r (Suc k))"

definition randint :: "nat \<Rightarrow> nat \<Rightarrow> rng \<Rightarrow> nat \<times> rng" where
  "randint a b r = (a + r 0 mod (b - a + 1), rest r)"

definition choice :: "'a list \<Rightarrow> rng \<Rightarrow> 'a \<times> rng" where
  "choice xs r = (xs ! (r 0 mod length xs), rest r)"

text \<open>\<open>"".join(str(random.randint(0, 9)) for _ in range(n))\<close>\<close>

fun random_digits :: "nat \<Rightarrow> rng \<Rightarrow> str \<times> rng" where
  "random_digits 0 r = ([], r)"
| "random_digits (Suc n) r =
     (case randint 0 9 r of (d, r1) \<Rightarrow>
        case random_digits n r1 of (ds, r2) \<Rightarrow> (decimal d @ ds, r2))"

text \<open>\<open>''.join(random.choice('0123456789') for _ in range(n))\<close>\<close>

fun random_choices :: "nat \<Rightarrow> rng \<Rightarrow> str \<times> rng" where
  "random_choices 0 r = ([], r)"
| "random_choices (Suc n) r =
     (case choice (py ''0123456789'') r of (c, r1) \<Rightarrow>
        case random_choices n r1 of (cs, r2) \<Rightarrow> (c # cs, r2))"

subsection \<open>\<open>generate_credit_card\<close> of \<open>msre206_debug.py\<close>\<close>

datatype error = ValueError | UnicodeEncodeError

definition prefixes :: "(str \<times> str list) list" where
  "prefixes =
     [(py ''visa'', [py ''4'']),
      (py ''mastercard'', [py ''51'', py ''52'', py ''53'', py ''54'', py ''55'']),
      (py ''american_express'', [py ''34'', py ''37'']),
      (py ''discover'', [py ''6011'', py ''65''])]"

text \<open>
  Lines 89 to 91: the check digit that the loop computes from the number without its check
  digit, appended to it.
\<close>

definition with_check_digit :: "str \<Rightarrow> str" where
  "with_check_digit card_number =
     (let checksum = weighted_sum card_number mod 10
      in card_number @ decimal ((10 - checksum) mod 10))"

text \<open>
  The loop \<open>while True\<close> of lines 87 to 93: it returns the first candidate that \<open>verify\<close>
  accepts. \<open>None\<close> is the loop that never returns.
\<close>

partial_function (option) generate_loop :: "str \<Rightarrow> nat \<Rightarrow> rng \<Rightarrow> str option" where
  "generate_loop prefix len r =
     (case random_digits (len - length prefix - 1) r of (ds, r1) \<Rightarrow>
        let card_number = with_check_digit (prefix @ ds)
        in if verify card_number then Some card_number else generate_loop prefix len r1)"

definition generate_credit_card :: "str \<Rightarrow> rng \<Rightarrow> (error + str) option" where
  "generate_credit_card card_type r =
     (case map_of prefixes card_type of
        None \<Rightarrow> Some (Inl ValueError)
      | Some ps \<Rightarrow>
          (case choice ps r of (prefix, r1) \<Rightarrow>
             let len = (if card_type \<noteq> py ''american_express'' then 16 else 15)
             in map_option Inr (generate_loop prefix len r1)))"

definition generate_card_tracks :: "str \<Rightarrow> str \<Rightarrow> str \<times> str" where
  "generate_card_tracks card_number card_type =
     (let name = py ''CARDHOLDER/NAME'';
          expiration_date = py ''2512'';
          service_code = py ''101'';
          track1 = py ''%B'' @ card_number @ py ''^'' @ name @ py ''^'' @ expiration_date
                   @ service_code @ py ''?'';
          track2 = py '';'' @ card_number @ py ''='' @ expiration_date @ service_code
                   @ py ''?''
      in (track1, track2))"

text \<open>The frame of \<open>write_card_with_generated_number\<close>, line 121.\<close>

definition generated_write_command :: "str \<Rightarrow> str \<Rightarrow> str" where
  "generated_write_command track1 track2 =
     [0x1B, of_char CHR ''w'', 0x1B, of_char CHR ''s'', 0x1B, 0x01] @ track1
     @ [0x1B, 0x02] @ track2 @ [0x1C]"

subsection \<open>\<open>generate_credit_card\<close> of \<open>msre206_cc.py\<close>\<close>

text \<open>The variables of the window that the operations read and set.\<close>

record gui =
  track1_var :: str
  track2_var :: str
  track3_var :: str
  raw_data_var :: str

definition prefixes_cc :: "(str \<times> str list) list" where
  "prefixes_cc =
     [(py ''Visa'', [py ''4'']),
      (py ''MasterCard'', [py ''51'', py ''52'', py ''53'', py ''54'', py ''55'']),
      (py ''American Express'', [py ''34'', py ''37'']),
      (py ''Discover'',
         [py ''6011'', py ''622126'', py ''622127'', py ''622128'', py ''622129'',
          py ''62213'', py ''62214'', py ''62215'', py ''62216'', py ''62217'', py ''62218'',
          py ''62219'', py ''6222'', py ''6223'', py ''6224'', py ''6225'', py ''6226'',
          py ''6227'', py ''6228'', py ''62290'', py ''62291'', py ''622920'', py ''622921'',
          py ''622922'', py ''622923'', py ''622924'', py ''622925''])]"

definition lengths_cc :: "(str \<times> nat) list" where
  "lengths_cc =
     [(py ''Visa'', 16), (py ''MasterCard'', 16), (py ''American Express'', 15),
      (py ''Discover'', 16)]"

text \<open>
  Lines 141 to 146 for a card type of the tables: the prefix, the random digits and the
  check digit of \<open>append\<close> (here \<open>append_luhn\<close>). The lookups \<open>prefixes[card_type]\<close> and \<open>lengths[card_type]\<close>
  raise \<open>KeyError\<close> for any other card type, which is \<open>None\<close> here.
\<close>

definition card_number_cc :: "str \<Rightarrow> rng \<Rightarrow> (str \<times> rng) option" where
  "card_number_cc card_type r =
     (case map_of prefixes_cc card_type of
        None \<Rightarrow> None
      | Some ps \<Rightarrow>
          (case choice ps r of (prefix, r1) \<Rightarrow>
             (case map_of lengths_cc card_type of
                None \<Rightarrow> None
              | Some len \<Rightarrow>
                  (case random_choices (len - length prefix - 1) r1 of (ds, r2) \<Rightarrow>
                     Some (append_luhn (prefix @ ds), r2)))))"

text \<open>
  Lines 148 to 163 for a card number: the tracks are set only when \<open>verify\<close> accepts the
  number.
\<close>

definition set_generated_tracks :: "str \<Rightarrow> rng \<Rightarrow> gui \<Rightarrow> gui" where
  "set_generated_tracks card_number r g =
     (if verify card_number then
        (case randint 23 30 r of (yy, r1) \<Rightarrow>
           case randint 1 12 r1 of (mm, r2) \<Rightarrow>
             let name = py ''CARDHOLDER'';
                 expiry = format02 yy @ format02 mm;
                 service_code = py ''101'';
                 track1 = py ''%B'' @ card_number @ py ''^'' @ name @ py ''/'' @ expiry
                          @ py ''^'' @ service_code @ py ''?'';
                 track2 = py '';'' @ card_number @ py ''='' @ expiry @ service_code
                          @ py ''?''
             in g\<lparr>track1_var := track1, track2_var := track2\<rparr>)
      else g)"

text \<open>The function itself, with its card type \<open>"Visa"\<close>.\<close>

definition generate_credit_card_cc :: "rng \<Rightarrow> gui \<Rightarrow> gui option" where
  "generate_credit_card_cc r g =
     (case card_number_cc (py ''Visa'') r of
        None \<Rightarrow> None
      | Some (card_number, r1) \<Rightarrow> Some (set_generated_tracks card_number r1 g))"

section \<open>Reading a card\<close>

text \<open>
  \<open>bytes.decode()\<close>: strict UTF-8. \<open>utf8_first b bs\<close> decodes the code point that starts
  with the byte \<open>b\<close> and gives it with the number of continuation bytes it takes from \<open>bs\<close>;
  \<open>None\<close> is \<open>UnicodeDecodeError\<close> (a stray or missing continuation byte, an overlong
  form, a surrogate, a value above 10FFFF).
\<close>

definition in_range :: "byte \<Rightarrow> nat \<Rightarrow> nat \<Rightarrow> bool" where
  "in_range b lo hi = (lo \<le> unat b \<and> unat b \<le> hi)"

definition utf8_first :: "byte \<Rightarrow> bytes \<Rightarrow> (nat \<times> nat) option" where
  "utf8_first b bs =
     (let n = unat b in
      if n < 0x80 then Some (n, 0)
      else if 0xC2 \<le> n \<and> n \<le> 0xDF then
        (case bs of
           b1 # _ \<Rightarrow>
             if in_range b1 0x80 0xBF
             then Some ((n - 0xC0) * 64 + (unat b1 - 0x80), 1) else None
         | _ \<Rightarrow> None)
      else if 0xE0 \<le> n \<and> n \<le> 0xEF then
        (case bs of
           b1 # b2 # _ \<Rightarrow>
             if in_range b1 (if n = 0xE0 then 0xA0 else 0x80) (if n = 0xED then 0x9F else 0xBF)
                \<and> in_range b2 0x80 0xBF
             then Some ((n - 0xE0) * 4096 + (unat b1 - 0x80) * 64 + (unat b2 - 0x80), 2)
             else None
         | _ \<Rightarrow> None)
      else if 0xF0 \<le> n \<and> n \<le> 0xF4 then
        (case bs of
           b1 # b2 # b3 # _ \<Rightarrow>
             if in_range b1 (if n = 0xF0 then 0x90 else 0x80) (if n = 0xF4 then 0x8F else 0xBF)
                \<and> in_range b2 0x80 0xBF \<and> in_range b3 0x80 0xBF
             then Some ((n - 0xF0) * 262144 + (unat b1 - 0x80) * 4096
                        + (unat b2 - 0x80) * 64 + (unat b3 - 0x80), 3)
             else None
         | _ \<Rightarrow> None)
      else None)"

fun decode :: "bytes \<Rightarrow> str option" where
  "decode [] = Some []"
| "decode (b # bs) =
     (case utf8_first b bs of
        None \<Rightarrow> None
      | Some (c, k) \<Rightarrow>
          (case decode (drop k bs) of None \<Rightarrow> None | Some cs \<Rightarrow> Some (c # cs)))"

text \<open>
  \<open>re.sub(r'\x1B[^\x1B[^\x20-\x7E]*', '', s)\<close>. The class \<open>[^\x1B[^\x20-\x7E]\<close> is the
  complement of ESC, \<open>[\<close>, \<open>^\<close> and the range from 20 to 7E; a match is one ESC with the
  longest run of characters of the class after it, and matches are removed from left to
  right.
\<close>

definition in_class :: "nat \<Rightarrow> bool" where
  "in_class c =
     (\<not> (c = 0x1B \<or> c = of_char CHR ''['' \<or> c = of_char CHR ''^''
         \<or> (0x20 \<le> c \<and> c \<le> 0x7E)))"

function re_sub :: "str \<Rightarrow> str" where
  "re_sub [] = []"
| "re_sub (c # cs) = (if c = 0x1B then re_sub (dropWhile in_class cs) else c # re_sub cs)"
  by pat_completeness auto
termination
  by (relation "measure length") (auto simp: le_imp_less_Suc length_dropWhile_le)

text \<open>\<open>s.split(sep)\<close> for a separator of one character: one field more than separators.\<close>

fun split_str :: "str \<Rightarrow> nat \<Rightarrow> str list" where
  "split_str [] sep = [] # []"
| "split_str (c # cs) sep =
     (if c = sep then [] # split_str cs sep
      else (case split_str cs sep of
              f # fs \<Rightarrow> (c # f) # fs
            | [] \<Rightarrow> [c] # []))"

text \<open>\<open>s.strip()\<close>: the characters for which \<open>str.isspace\<close> holds are removed at both ends.\<close>

definition is_space :: "nat \<Rightarrow> bool" where
  "is_space c =
     ((0x09 \<le> c \<and> c \<le> 0x0D) \<or> (0x1C \<le> c \<and> c \<le> 0x20) \<or> c = 0x85 \<or> c = 0xA0
      \<or> c = 0x1680 \<or> (0x2000 \<le> c \<and> c \<le> 0x200A) \<or> c = 0x2028 \<or> c = 0x2029
      \<or> c = 0x202F \<or> c = 0x205F \<or> c = 0x3000)"

definition strip :: "str \<Rightarrow> str" where
  "strip s = rev (dropWhile is_space (rev (dropWhile is_space s)))"

text \<open>
  The connected device as \<open>read_until_complete\<close> sees it, with the clock: \<open>clock k\<close> is the
  value of the \<open>k\<close>-th call of \<open>time.time()\<close>, \<open>reads k\<close> the bytes that the \<open>k\<close>-th call of
  \<open>device.read(1024)\<close> returns, empty when its timeout passes without data.
\<close>

record device =
  clock :: "nat \<Rightarrow> real"
  reads :: "nat \<Rightarrow> bytes"

definition DEFAULT_TIMEOUT :: real where
  "DEFAULT_TIMEOUT = 5"

text \<open>
  The loop of \<open>read_until_complete\<close>: \<open>k\<close> polls have been made and \<open>data\<close> has been
  accumulated. \<open>None\<close> is the loop that never ends.
\<close>

partial_function (option) read_loop :: "device \<Rightarrow> real \<Rightarrow> nat \<Rightarrow> bytes \<Rightarrow> bytes option" where
  "read_loop dev start_time k data =
     (if clock dev (Suc k) - start_time < DEFAULT_TIMEOUT then
        (let chunk = reads dev k in
         if chunk \<noteq> [] then read_loop dev start_time (Suc k) (data @ chunk)
         else Some data)
      else Some data)"

definition read_until_complete :: "device \<Rightarrow> bytes option" where
  "read_until_complete dev = read_loop dev (clock dev 0) 0 []"

text \<open>What \<open>read_card\<close> writes to the device and prints, one constructor for each statement.\<close>

datatype message =
  Sent bytes | RawResponse bytes | DecodedResponse str | CleanedResponse str
| DecodeFailure str | NoData | Closed

definition set_tracks :: "str list \<Rightarrow> gui \<Rightarrow> gui" where
  "set_tracks tracks g =
     (let g1 = (if length tracks \<ge> 1 then g\<lparr>track1_var := strip (tracks ! 0)\<rparr> else g);
          g2 = (if length tracks \<ge> 2 then g1\<lparr>track2_var := strip (tracks ! 1)\<rparr> else g1)
      in (if length tracks \<ge> 3 then g2\<lparr>track3_var := strip (tracks ! 2)\<rparr> else g2))"

text \<open>
  Lines 76 to 98 of \<open>read_card\<close>: what is done with the accumulated response. The handler
  of \<open>UnicodeDecodeError\<close> prints the response in hexadecimal and leaves the variables as
  they are.
\<close>

definition show_response :: "bytes \<Rightarrow> gui \<Rightarrow> gui \<times> message list" where
  "show_response response g =
     (if response \<noteq> [] then
        (case decode response of
           Some decoded_response \<Rightarrow>
             (let cleaned_response = re_sub decoded_response;
                  tracks = split_str cleaned_response (of_char CHR ''?'')
              in (set_tracks tracks g,
                  [RawResponse response, DecodedResponse decoded_response,
                   CleanedResponse cleaned_response]))
         | None \<Rightarrow> (g, [RawResponse response, DecodeFailure (hex response)]))
      else (g, [NoData]))"

text \<open>
  \<open>read_card\<close>: without a connection it returns at once; otherwise it sends the read
  command, accumulates the response, shows it and closes the device. \<open>Inl\<close> is an exception
  that leaves the function, \<open>None\<close> a read loop that never ends.
\<close>

definition read_card :: "device option \<Rightarrow> gui \<Rightarrow> (error + gui \<times> message list) option" where
  "read_card connection g =
     (case connection of
        None \<Rightarrow> Some (Inr (g, []))
      | Some dev \<Rightarrow>
          (case encode read_command of
             None \<Rightarrow> Some (Inl UnicodeEncodeError)
           | Some frame \<Rightarrow>
               (case read_until_complete dev of
                  None \<Rightarrow> None
                | Some response \<Rightarrow>
                    (case show_response response g of
                       (g', messages) \<Rightarrow> Some (Inr (g', Sent frame # messages @ [Closed]))))))"

section \<open>Lemmas\<close>

lemma startswith_single: "startswith s [a] \<longleftrightarrow> s \<noteq> [] \<and> hd s = a"
  by (cases s) (simp_all add: startswith_def)

lemma two_last: "2 \<le> length s \<Longrightarrow> \<exists>xs x y. s = xs @ [x, y]"
proof (cases s rule: rev_cases)
  case Nil
  assume "2 \<le> length s"
  with Nil show ?thesis by simp
next
  case (snoc ys y)
  assume "2 \<le> length s"
  with snoc have "ys \<noteq> []" by auto
  then obtain xs x where "ys = xs @ [x]" by (cases ys rule: rev_cases) auto
  with snoc show ?thesis by auto
qed

lemma endswith_pair:
  "endswith s [a, b] \<longleftrightarrow> 2 \<le> length s \<and> s ! (length s - 2) = a \<and> last s = b"
proof (cases "2 \<le> length s")
  case False
  then show ?thesis by (simp add: endswith_def)
next
  case True
  then obtain xs x y where s: "s = xs @ [x, y]"
    using two_last by blast
  show ?thesis by (simp add: s endswith_def)
qed

lemma drop_to_last: "s \<noteq> [] \<Longrightarrow> drop (length s - 1) s = [last s]"
  by (cases s rule: rev_cases) simp_all

lemma status_lookup:
  "(case map_of status_codes [b] of Some message \<Rightarrow> message
    | None \<Rightarrow> py ''Unknown status: '' @ hex [b]) = outcome_message (status_table_spec b)"
  by (simp add: status_codes_def status_table_spec_def)

lemma parse_response_classify: "parse_response bs = outcome_message (classify_spec bs)"
proof (cases "bs = []")
  case True
  then show ?thesis
    by (simp add: parse_response_def classify_spec_def startswith_def)
next
  case False
  then have d: "drop (length bs - 1) bs = [last bs]"
    by (rule drop_to_last)
  from False show ?thesis
    unfolding parse_response_def classify_spec_def Let_def d status_lookup startswith_single
      endswith_pair
    by auto
qed

lemma hexdigit_inj: "n < 16 \<Longrightarrow> m < 16 \<Longrightarrow> hexdigit n = hexdigit m \<Longrightarrow> n = m"
proof -
  assume n: "n < 16" and m: "m < 16" and e: "hexdigit n = hexdigit m"
  have d: "distinct (py ''0123456789abcdef'')" by simp
  have l: "length (py ''0123456789abcdef'') = 16" by simp
  from e have "py ''0123456789abcdef'' ! n = py ''0123456789abcdef'' ! m"
    by (simp only: hexdigit_def)
  with d l n m show "n = m"
    by (simp only: nth_eq_iff_index_eq)
qed

lemma hex_byte_inj: "hex_byte a = hex_byte b \<Longrightarrow> a = b"
proof -
  assume e: "hex_byte a = hex_byte b"
  have a: "unat a < 256" and b: "unat b < 256"
    using unsigned_less [of a] unsigned_less [of b] by simp_all
  then have q: "unat a div 16 < 16" "unat b div 16 < 16"
    by simp_all
  have r: "unat a mod 16 < 16" "unat b mod 16 < 16"
    by simp_all
  from e have "hexdigit (unat a div 16) = hexdigit (unat b div 16)"
    and "hexdigit (unat a mod 16) = hexdigit (unat b mod 16)"
    by (simp_all add: hex_byte_def)
  then have "unat a div 16 = unat b div 16" "unat a mod 16 = unat b mod 16"
    using q r by (blast intro: hexdigit_inj)+
  then have "unat a = unat b"
    by (metis div_mult_mod_eq)
  then show "a = b" by (simp add: word_unat_eq_iff)
qed

lemma outcome_message_inj: "outcome_message x = outcome_message y \<Longrightarrow> x = y"
  by (cases x; cases y) (simp_all add: hex_def hex_byte_inj)

subsection \<open>Luhn checksum and the generators\<close>

lemma decimal_digit: "n < 10 \<Longrightarrow> decimal n = [48 + n]"
  by (simp add: decimal.simps)

lemma check_arith: "((10 - w mod 10) mod 10 + w) mod 10 = (0::nat)"
proof -
  define a where "a = w mod 10"
  have a: "a < 10" by (simp add: a_def)
  have "((10 - a) mod 10 + w) mod 10 = ((10 - a) mod 10 + w mod 10) mod 10"
    by (simp only: mod_add_right_eq)
  also have "\<dots> = ((10 - a) mod 10 + a) mod 10"
    by (simp only: a_def)
  also have "\<dots> = 0"
  proof (cases "a = 0")
    case True
    then show ?thesis by simp
  next
    case False
    with a have "(10 - a) mod 10 = 10 - a" by simp
    moreover from a have "10 - a + a = 10" by simp
    ultimately show ?thesis by simp
  qed
  finally show ?thesis by (simp only: a_def)
qed

lemma weighted_sum_snoc:
  "weighted_sum (s @ [c]) = int_digit c + sum_list (map weight (enumerate (Suc 0) (rev s)))"
  by (simp add: weighted_sum_def weight_def)

lemma weighted_sum_zero: "weighted_sum (s @ [48]) = sum_list (map weight (enumerate (Suc 0) (rev s)))"
  by (simp add: weighted_sum_snoc int_digit_def)

lemma weighted_sum_digit: "weighted_sum (s @ [48 + k]) = k + weighted_sum (s @ [48])"
  by (simp add: weighted_sum_snoc int_digit_def)

lemma verify_append_luhn: "verify (append_luhn s)"
proof -
  have "append_luhn s = s @ [48 + (10 - weighted_sum (s @ [48]) mod 10) mod 10]"
    by (simp add: append_luhn_def decimal_digit)
  then show ?thesis
    by (simp only: verify_def weighted_sum_digit check_arith)
qed

lemma length_append_luhn: "length (append_luhn s) = Suc (length s)"
  by (simp add: append_luhn_def decimal_digit)

lemma length_with_check_digit: "length (with_check_digit s) = Suc (length s)"
  by (simp add: with_check_digit_def decimal_digit)

lemma length_random_digits: "random_digits n r = (ds, r') \<Longrightarrow> length ds = n"
  by (induction n arbitrary: r ds r')
     (auto simp: randint_def decimal_digit split: prod.splits)

lemma length_random_choices: "random_choices n r = (ds, r') \<Longrightarrow> length ds = n"
  by (induction n arbitrary: r ds r') (auto simp: choice_def split: prod.splits)

lemma generate_loop_sound:
  assumes "generate_loop prefix len r = Some number"
  shows "verify number \<and> length number = Suc (length prefix + (len - length prefix - 1))"
proof -
  let ?P = "\<lambda>(prefix :: str) (len :: nat) (r :: rng) (number :: str).
              verify number \<and> length number = Suc (length prefix + (len - length prefix - 1))"
  show ?thesis
  proof (rule generate_loop.raw_induct [where P = ?P, OF _ assms])
    fix f :: "str \<Rightarrow> nat \<Rightarrow> rng \<Rightarrow> str option" and prefix len r number
    assume IH: "\<And>prefix len r number. f prefix len r = Some number \<Longrightarrow>
      verify number \<and> length number = Suc (length prefix + (len - length prefix - 1))"
    assume body: "(case random_digits (len - length prefix - 1) r of
        (ds, r1) \<Rightarrow>
          let card_number = with_check_digit (prefix @ ds)
          in if verify card_number then Some card_number else f prefix len r1) = Some number"
    obtain ds r1 where d: "random_digits (len - length prefix - 1) r = (ds, r1)"
      by (cases "random_digits (len - length prefix - 1) r")
    then have l: "length ds = len - length prefix - 1"
      by (rule length_random_digits)
    show "verify number \<and> length number = Suc (length prefix + (len - length prefix - 1))"
    proof (cases "verify (with_check_digit (prefix @ ds))")
      case True
      with body d have "number = with_check_digit (prefix @ ds)"
        by (simp add: Let_def)
      with True l show ?thesis
        by (simp add: length_with_check_digit)
    next
      case False
      with body d have "f prefix len r1 = Some number"
        by (simp add: Let_def)
      then show ?thesis by (rule IH)
    qed
  qed
qed

lemma prefixes_short:
  "map_of prefixes card_type = Some ps \<Longrightarrow> ps \<noteq> [] \<and> (\<forall>p \<in> set ps. length p \<le> 4)"
  by (auto simp: prefixes_def split: if_splits)

lemma prefixes_cc_short:
  "map_of prefixes_cc card_type = Some ps \<Longrightarrow> ps \<noteq> [] \<and> (\<forall>p \<in> set ps. length p \<le> 6)"
  by (auto simp: prefixes_cc_def split: if_splits)

lemma choice_in_set: "xs \<noteq> [] \<Longrightarrow> fst (choice xs r) \<in> set xs"
  by (simp add: choice_def)

lemma generate_credit_card_sound:
  assumes "generate_credit_card card_type r = Some (Inr number)"
  shows "verify number \<and> length number = (if card_type = py ''american_express'' then 15 else 16)"
proof -
  from assms obtain ps where ps: "map_of prefixes card_type = Some ps"
    by (auto simp: generate_credit_card_def split: option.splits)
  obtain prefix r1 where c: "choice ps r = (prefix, r1)"
    by (cases "choice ps r")
  let ?len = "if card_type \<noteq> py ''american_express'' then 16 else 15 :: nat"
  from assms ps c have g: "generate_loop prefix ?len r1 = Some number"
    by (auto simp: generate_credit_card_def Let_def)
  from ps c have "length prefix \<le> 4"
    using prefixes_short [OF ps] choice_in_set [of ps r] by auto
  with generate_loop_sound [OF g] show ?thesis
    by (auto split: if_splits)
qed

lemma card_number_cc_sound:
  assumes "card_number_cc card_type r = Some (number, r')"
  shows "verify number \<and> map_of lengths_cc card_type = Some (length number)"
proof -
  from assms obtain ps len where ps: "map_of prefixes_cc card_type = Some ps"
    and len: "map_of lengths_cc card_type = Some len"
    by (auto simp: card_number_cc_def split: option.splits prod.splits)
  obtain prefix r1 where c: "choice ps r = (prefix, r1)"
    by (cases "choice ps r")
  obtain ds r2 where d: "random_choices (len - length prefix - 1) r1 = (ds, r2)"
    by (cases "random_choices (len - length prefix - 1) r1")
  from assms ps len c d have n: "number = append_luhn (prefix @ ds)"
    by (simp add: card_number_cc_def)
  from ps c have p: "length prefix \<le> 6"
    using prefixes_cc_short [OF ps] choice_in_set [of ps r] by auto
  from len have "15 \<le> len"
    by (auto simp: lengths_cc_def split: if_splits)
  moreover from d have "length ds = len - length prefix - 1"
    by (rule length_random_choices)
  ultimately have "length number = len"
    using p n by (simp add: length_append_luhn)
  with len n show ?thesis
    by (simp add: verify_append_luhn)
qed

lemma card_number_cc_defined:
  assumes "card_type \<in> set (map fst prefixes_cc)"
  shows "\<exists>number r'. card_number_cc card_type r = Some (number, r')"
  using assms
  by (auto simp: card_number_cc_def prefixes_cc_def lengths_cc_def split: prod.splits)

lemma random_digits_eq:
  "random_digits n r = (map (\<lambda>k. 48 + r k mod 10) [0..<n], (\<lambda>k. r (n + k)))"
proof (induction n arbitrary: r)
  case 0
  show ?case by simp
next
  case (Suc n)
  have "map (\<lambda>k. 48 + r k mod 10) [0..<Suc n]
        = (48 + r 0 mod 10) # map (\<lambda>k. 48 + r (Suc k) mod 10) [0..<n]"
    by (simp add: upt_conv_Cons map_Suc_upt [symmetric] del: upt_Suc)
  then show ?case
    by (simp add: Suc randint_def rest_def decimal_digit del: upt_Suc)
qed

lemma generate_loop_first:
  assumes "random_digits (len - length prefix - 1) r = (ds, r1)"
    and "verify (with_check_digit (prefix @ ds))"
  shows "generate_loop prefix len r = Some (with_check_digit (prefix @ ds))"
  using assms by (subst generate_loop.simps) simp

lemma visa_returns:
  "generate_credit_card (py ''visa'') (\<lambda>k. if k = 14 then 5 else 0)
     = Some (Inr (py ''4000000000000051''))"
proof -
  let ?r = "\<lambda>k::nat. if Suc k = 14 then 5 else 0 :: nat"
  have m: "map (\<lambda>k. 48 + ?r k mod 10) [0..<14] = py ''00000000000005''"
    by code_simp
  have d: "random_digits (16 - length (py ''4'') - 1) ?r
             = (py ''00000000000005'', (\<lambda>k. ?r (14 + k)))"
    using random_digits_eq [of 14 ?r] by (simp only: m) simp
  have w: "with_check_digit (py ''4'' @ py ''00000000000005'') = py ''4000000000000051''"
    by (simp add: with_check_digit_def weighted_sum_def weight_def int_digit_def decimal_digit)
  have v: "verify (py ''4000000000000051'')"
    by (simp add: verify_def weighted_sum_def weight_def int_digit_def)
  have "generate_loop (py ''4'') 16 ?r = Some (py ''4000000000000051'')"
    using generate_loop_first [OF d] v by (simp only: w)
  then show ?thesis
    by (simp add: generate_credit_card_def prefixes_def choice_def rest_def)
qed

lemma mastercard_returns:
  "generate_credit_card (py ''mastercard'') (\<lambda>k. if k = 12 then 1 else if k = 13 then 5 else 0)
     = Some (Inr (py ''5100000000000156''))"
proof -
  let ?r = "\<lambda>k::nat. if Suc k = 12 then 1 else if Suc k = 13 then 5 else 0 :: nat"
  have m: "map (\<lambda>k. 48 + ?r k mod 10) [0..<13] = py ''0000000000015''"
    by code_simp
  have d: "random_digits (16 - length (py ''51'') - 1) ?r
             = (py ''0000000000015'', (\<lambda>k. ?r (13 + k)))"
    using random_digits_eq [of 13 ?r] by (simp only: m) simp
  have w: "with_check_digit (py ''51'' @ py ''0000000000015'') = py ''5100000000000156''"
    by (simp add: with_check_digit_def weighted_sum_def weight_def int_digit_def decimal_digit)
  have v: "verify (py ''5100000000000156'')"
    by (simp add: verify_def weighted_sum_def weight_def int_digit_def)
  have "generate_loop (py ''51'') 16 ?r = Some (py ''5100000000000156'')"
    using generate_loop_first [OF d] v by (simp only: w)
  then show ?thesis
    by (simp add: generate_credit_card_def prefixes_def choice_def rest_def)
qed

lemma american_express_returns:
  "generate_credit_card (py ''american_express'') (\<lambda>k. if k = 12 then 8 else 0)
     = Some (Inr (py ''340000000000082''))"
proof -
  let ?r = "\<lambda>k::nat. if Suc k = 12 then 8 else 0 :: nat"
  have m: "map (\<lambda>k. 48 + ?r k mod 10) [0..<12] = py ''000000000008''"
    by code_simp
  have d: "random_digits (15 - length (py ''34'') - 1) ?r
             = (py ''000000000008'', (\<lambda>k. ?r (12 + k)))"
    using random_digits_eq [of 12 ?r] by (simp only: m) simp
  have w: "with_check_digit (py ''34'' @ py ''000000000008'') = py ''340000000000082''"
    by (simp add: with_check_digit_def weighted_sum_def weight_def int_digit_def decimal_digit)
  have v: "verify (py ''340000000000082'')"
    by (simp add: verify_def weighted_sum_def weight_def int_digit_def)
  have "generate_loop (py ''34'') 15 ?r = Some (py ''340000000000082'')"
    using generate_loop_first [OF d] v by (simp only: w)
  then show ?thesis
    by (simp add: generate_credit_card_def prefixes_def choice_def rest_def)
qed

lemma discover_returns:
  "generate_credit_card (py ''discover'') (\<lambda>k. if k = 11 then 3 else 0)
     = Some (Inr (py ''6011000000000038''))"
proof -
  let ?r = "\<lambda>k::nat. if Suc k = 11 then 3 else 0 :: nat"
  have m: "map (\<lambda>k. 48 + ?r k mod 10) [0..<11] = py ''00000000003''"
    by code_simp
  have d: "random_digits (16 - length (py ''6011'') - 1) ?r
             = (py ''00000000003'', (\<lambda>k. ?r (11 + k)))"
    using random_digits_eq [of 11 ?r] by (simp only: m) simp
  have w: "with_check_digit (py ''6011'' @ py ''00000000003'') = py ''6011000000000038''"
    by (simp add: with_check_digit_def weighted_sum_def weight_def int_digit_def decimal_digit)
  have v: "verify (py ''6011000000000038'')"
    by (simp add: verify_def weighted_sum_def weight_def int_digit_def)
  have "generate_loop (py ''6011'') 16 ?r = Some (py ''6011000000000038'')"
    using generate_loop_first [OF d] v by (simp only: w)
  then show ?thesis
    by (simp add: generate_credit_card_def prefixes_def choice_def rest_def)
qed

lemma supported_returns:
  assumes "card_type \<in> set (map fst prefixes)"
  shows "\<exists>r number. generate_credit_card card_type r = Some (Inr number)"
proof -
  from assms consider "card_type = py ''visa''" | "card_type = py ''mastercard''"
    | "card_type = py ''american_express''" | "card_type = py ''discover''"
    by (auto simp: prefixes_def)
  then show ?thesis
  proof cases
    case 1
    with visa_returns show ?thesis by blast
  next
    case 2
    with mastercard_returns show ?thesis by blast
  next
    case 3
    with american_express_returns show ?thesis by blast
  next
    case 4
    with discover_returns show ?thesis by blast
  qed
qed

lemma lengths_cc_values:
  "map_of lengths_cc card_type = Some n \<Longrightarrow>
     n = (if card_type = py ''American Express'' then 15 else 16)"
  by (auto simp: lengths_cc_def split: if_splits)

lemma card_number_cc_valid:
  assumes "card_type \<in> set (map fst prefixes_cc)"
  shows "\<exists>number r'. card_number_cc card_type r = Some (number, r') \<and> verify number
           \<and> length number = (if card_type = py ''American Express'' then 15 else 16)"
proof -
  from card_number_cc_defined [OF assms] obtain number r'
    where c: "card_number_cc card_type r = Some (number, r')"
    by blast
  from card_number_cc_sound [OF c] lengths_cc_values [of card_type "length number"] c
  show ?thesis by auto
qed

text \<open>
  The strings that reach \<open>int\<close> are strings of decimal digits: the prefixes of the tables,
  the random digits, and the check digit appended to them.
\<close>

lemma is_digit_decimal: "n < 10 \<Longrightarrow> list_all is_digit (decimal n)"
  by (simp add: decimal_digit is_digit_def)

lemma random_digits_digits: "random_digits n r = (ds, r') \<Longrightarrow> list_all is_digit ds"
  by (induction n arbitrary: r ds r')
     (auto simp: randint_def decimal_digit is_digit_def split: prod.splits)

lemma choice_digit: "is_digit (fst (choice (py ''0123456789'') r))"
proof -
  have "list_all is_digit (py ''0123456789'')"
    by (simp add: is_digit_def)
  moreover have "r 0 mod 10 < length (py ''0123456789'')"
    by simp
  ultimately have "is_digit (py ''0123456789'' ! (r 0 mod 10))"
    by (simp only: list_all_length)
  then show ?thesis
    by (simp add: choice_def)
qed

lemma random_choices_digits: "random_choices n r = (ds, r') \<Longrightarrow> list_all is_digit ds"
proof (induction n arbitrary: r ds r')
  case 0
  then show ?case by simp
next
  case (Suc n)
  obtain c r1 where c: "choice (py ''0123456789'') r = (c, r1)"
    by (cases "choice (py ''0123456789'') r")
  obtain cs r2 where cs: "random_choices n r1 = (cs, r2)"
    by (cases "random_choices n r1")
  from c have "is_digit c"
    using choice_digit [of r] by simp
  moreover from cs have "list_all is_digit cs"
    by (rule Suc.IH)
  moreover from Suc.prems c cs have "ds = c # cs"
    by simp
  ultimately show ?case by simp
qed

lemma candidate_digits:
  "list_all is_digit s \<Longrightarrow> list_all is_digit (with_check_digit s)"
  by (simp add: with_check_digit_def is_digit_decimal)

lemma append_luhn_digits: "list_all is_digit s \<Longrightarrow> list_all is_digit (append_luhn s)"
  by (simp add: append_luhn_def is_digit_decimal)

lemma prefixes_digits:
  "map_of prefixes card_type = Some ps \<Longrightarrow> \<forall>p \<in> set ps. list_all is_digit p"
  by (auto simp: prefixes_def is_digit_def split: if_splits)

lemma prefixes_cc_digits:
  "map_of prefixes_cc card_type = Some ps \<Longrightarrow> \<forall>p \<in> set ps. list_all is_digit p"
  by (auto simp: prefixes_cc_def is_digit_def split: if_splits)

lemma generate_loop_digits:
  assumes "generate_loop prefix len r = Some number" and "list_all is_digit prefix"
  shows "list_all is_digit number"
proof -
  let ?P = "\<lambda>(prefix :: str) (len :: nat) (r :: rng) (number :: str).
              list_all is_digit prefix \<longrightarrow> list_all is_digit number"
  have "list_all is_digit prefix \<longrightarrow> list_all is_digit number"
  proof (rule generate_loop.raw_induct [where P = ?P, OF _ assms(1)])
    fix f :: "str \<Rightarrow> nat \<Rightarrow> rng \<Rightarrow> str option" and prefix len r number
    assume IH: "\<And>prefix len r number. f prefix len r = Some number \<Longrightarrow>
      list_all is_digit prefix \<longrightarrow> list_all is_digit number"
    assume body: "(case random_digits (len - length prefix - 1) r of
        (ds, r1) \<Rightarrow>
          let card_number = with_check_digit (prefix @ ds)
          in if verify card_number then Some card_number else f prefix len r1) = Some number"
    obtain ds r1 where d: "random_digits (len - length prefix - 1) r = (ds, r1)"
      by (cases "random_digits (len - length prefix - 1) r")
    then have l: "list_all is_digit ds"
      by (rule random_digits_digits)
    show "list_all is_digit prefix \<longrightarrow> list_all is_digit number"
    proof (cases "verify (with_check_digit (prefix @ ds))")
      case True
      with body d have "number = with_check_digit (prefix @ ds)"
        by (simp add: Let_def)
      with l show ?thesis
        by (simp add: candidate_digits)
    next
      case False
      with body d have "f prefix len r1 = Some number"
        by (simp add: Let_def)
      then show ?thesis by (rule IH)
    qed
  qed
  with assms(2) show ?thesis by simp
qed

lemma generated_number_digits:
  assumes "generate_credit_card card_type r = Some (Inr number)"
  shows "list_all is_digit number"
proof -
  from assms obtain ps where ps: "map_of prefixes card_type = Some ps"
    by (auto simp: generate_credit_card_def split: option.splits)
  obtain prefix r1 where c: "choice ps r = (prefix, r1)"
    by (cases "choice ps r")
  let ?len = "if card_type \<noteq> py ''american_express'' then 16 else 15 :: nat"
  from assms ps c have g: "generate_loop prefix ?len r1 = Some number"
    by (auto simp: generate_credit_card_def Let_def)
  from ps c have "list_all is_digit prefix"
    using prefixes_short [OF ps] prefixes_digits [OF ps] choice_in_set [of ps r] by auto
  with g show ?thesis
    by (rule generate_loop_digits)
qed

lemma card_number_cc_digits:
  assumes "card_number_cc card_type r = Some (number, r')"
  shows "list_all is_digit number"
proof -
  from assms obtain ps len where ps: "map_of prefixes_cc card_type = Some ps"
    and len: "map_of lengths_cc card_type = Some len"
    by (auto simp: card_number_cc_def split: option.splits prod.splits)
  obtain prefix r1 where c: "choice ps r = (prefix, r1)"
    by (cases "choice ps r")
  obtain ds r2 where d: "random_choices (len - length prefix - 1) r1 = (ds, r2)"
    by (cases "random_choices (len - length prefix - 1) r1")
  from assms ps len c d have n: "number = append_luhn (prefix @ ds)"
    by (simp add: card_number_cc_def)
  from ps c have "list_all is_digit prefix"
    using prefixes_cc_short [OF ps] prefixes_cc_digits [OF ps] choice_in_set [of ps r] by auto
  moreover from d have "list_all is_digit ds"
    by (rule random_choices_digits)
  ultimately show ?thesis
    by (simp add: n append_luhn_digits)
qed

text \<open>
  On the draws that are all 0 the loop for Visa forms 4000000000000006 again and again,
  which \<open>verify\<close> rejects, and never returns.
\<close>

lemma zero_draws_digits: "random_digits n (\<lambda>k. 0) = (replicate n 48, (\<lambda>k. 0))"
  by (induction n) (simp_all add: randint_def rest_def decimal_digit)

lemma generate_loop_zero_draws_never:
  assumes "generate_loop prefix len r = Some number"
  shows "\<not> (prefix = py ''4'' \<and> len = 16 \<and> r = (\<lambda>k. 0))"
proof -
  let ?P = "\<lambda>(prefix :: str) (len :: nat) (r :: rng) (number :: str).
              \<not> (prefix = py ''4'' \<and> len = 16 \<and> r = (\<lambda>k. 0))"
  show ?thesis
  proof (rule generate_loop.raw_induct [where P = ?P, OF _ assms])
    fix f :: "str \<Rightarrow> nat \<Rightarrow> rng \<Rightarrow> str option" and prefix len r number
    assume IH: "\<And>prefix len r number. f prefix len r = Some number \<Longrightarrow>
      \<not> (prefix = py ''4'' \<and> len = 16 \<and> r = (\<lambda>k. 0))"
    assume body: "(case random_digits (len - length prefix - 1) r of
        (ds, r1) \<Rightarrow>
          let card_number = with_check_digit (prefix @ ds)
          in if verify card_number then Some card_number else f prefix len r1) = Some number"
    show "\<not> (prefix = py ''4'' \<and> len = 16 \<and> r = (\<lambda>k. 0))"
    proof
      assume a: "prefix = py ''4'' \<and> len = 16 \<and> r = (\<lambda>k. 0)"
      then have p: "prefix = py ''4''" and l: "len = 16" and z: "r = (\<lambda>k. 0)"
        by simp_all
      have d: "random_digits (len - length prefix - 1) r
                 = (py ''00000000000000'', (\<lambda>k. 0))"
        unfolding p l z using zero_draws_digits [of 14] by (simp add: numeral_eq_Suc)
      have w: "with_check_digit (prefix @ py ''00000000000000'') = py ''4000000000000006''"
        unfolding p
        by (simp add: with_check_digit_def weighted_sum_def weight_def int_digit_def
            decimal_digit)
      have v: "\<not> verify (py ''4000000000000006'')"
        by (simp add: verify_def weighted_sum_def weight_def int_digit_def)
      from body have "f prefix len (\<lambda>k. 0) = Some number"
        unfolding d prod.case Let_def w using v by simp
      from IH [OF this] a show False by simp
    qed
  qed
qed

lemma generate_loop_zero_draws: "generate_loop (py ''4'') 16 (\<lambda>k. 0) = None"
proof (cases "generate_loop (py ''4'') 16 (\<lambda>k. 0)")
  case None
  then show ?thesis .
next
  case (Some number)
  from generate_loop_zero_draws_never [OF Some] show ?thesis by simp
qed

lemma visa_zero_draws: "generate_credit_card (py ''visa'') (\<lambda>k. 0) = None"
proof -
  have "generate_loop [52] 16 (\<lambda>k. 0) = None"
    using generate_loop_zero_draws by simp
  then show ?thesis
    by (simp add: generate_credit_card_def prefixes_def choice_def rest_def)
qed

subsection \<open>Response accumulation\<close>

lemma upt_shift: "[k..<k + Suc m] = k # [Suc k..<Suc k + m]"
proof -
  have "k < k + Suc m" by simp
  then have "[k..<k + Suc m] = k # [Suc k..<k + Suc m]"
    by (rule upt_conv_Cons)
  then show ?thesis
    by (simp only: add_Suc add_Suc_right)
qed

lemma read_loop_run:
  assumes "\<forall>j<m. clock dev (Suc (k + j)) - st < DEFAULT_TIMEOUT \<and> reads dev (k + j) \<noteq> []"
    and "\<not> clock dev (Suc (k + m)) - st < DEFAULT_TIMEOUT \<or> reads dev (k + m) = []"
  shows "read_loop dev st k data = Some (data @ concat (map (reads dev) [k..<k + m]))"
  using assms
proof (induction m arbitrary: k data)
  case 0
  then show ?case
    by (subst read_loop.simps) (auto simp: Let_def)
next
  case (Suc m)
  from Suc.prems(1) have now: "clock dev (Suc k) - st < DEFAULT_TIMEOUT" "reads dev k \<noteq> []"
    by (auto dest: spec [of _ 0])
  have later: "\<forall>j<m. clock dev (Suc (Suc k + j)) - st < DEFAULT_TIMEOUT
      \<and> reads dev (Suc k + j) \<noteq> []"
  proof (intro allI impI)
    fix j assume "j < m"
    then have "Suc j < Suc m" by simp
    with Suc.prems(1) show "clock dev (Suc (Suc k + j)) - st < DEFAULT_TIMEOUT
      \<and> reads dev (Suc k + j) \<noteq> []"
      by (metis add_Suc add_Suc_right)
  qed
  from Suc.prems(2) have stop: "\<not> clock dev (Suc (Suc k + m)) - st < DEFAULT_TIMEOUT
      \<or> reads dev (Suc k + m) = []"
    by simp
  have "read_loop dev st k data = read_loop dev st (Suc k) (data @ reads dev k)"
    using now by (subst read_loop.simps) (simp add: Let_def)
  also have "\<dots> = Some ((data @ reads dev k) @ concat (map (reads dev) [Suc k..<Suc k + m]))"
    using later stop by (rule Suc.IH)
  also have "(data @ reads dev k) @ concat (map (reads dev) [Suc k..<Suc k + m])
      = data @ concat (map (reads dev) [k..<k + Suc m])"
    by (simp only: upt_shift list.map concat.simps append_assoc)
  finally show ?case .
qed

lemma read_loop_result:
  assumes "read_loop dev st k data = Some result"
  shows "\<exists>m. (\<forall>j<m. clock dev (Suc (k + j)) - st < DEFAULT_TIMEOUT \<and> reads dev (k + j) \<noteq> [])
           \<and> (\<not> clock dev (Suc (k + m)) - st < DEFAULT_TIMEOUT \<or> reads dev (k + m) = [])
           \<and> result = data @ concat (map (reads dev) [k..<k + m])"
proof -
  let ?P = "\<lambda>(dev :: device) (st :: real) (k :: nat) (data :: bytes) (result :: bytes).
     \<exists>m. (\<forall>j<m. clock dev (Suc (k + j)) - st < DEFAULT_TIMEOUT \<and> reads dev (k + j) \<noteq> [])
           \<and> (\<not> clock dev (Suc (k + m)) - st < DEFAULT_TIMEOUT \<or> reads dev (k + m) = [])
           \<and> result = data @ concat (map (reads dev) [k..<k + m])"
  show ?thesis
  proof (rule read_loop.raw_induct [where P = ?P, OF _ assms])
    fix f :: "device \<Rightarrow> real \<Rightarrow> nat \<Rightarrow> bytes \<Rightarrow> bytes option" and dev st k data result
    assume IH: "\<And>dev st k data result. f dev st k data = Some result \<Longrightarrow>
      \<exists>m. (\<forall>j<m. clock dev (Suc (k + j)) - st < DEFAULT_TIMEOUT \<and> reads dev (k + j) \<noteq> [])
           \<and> (\<not> clock dev (Suc (k + m)) - st < DEFAULT_TIMEOUT \<or> reads dev (k + m) = [])
           \<and> result = data @ concat (map (reads dev) [k..<k + m])"
    assume body: "(if clock dev (Suc k) - st < DEFAULT_TIMEOUT then
        (let chunk = reads dev k in
         if chunk \<noteq> [] then f dev st (Suc k) (data @ chunk) else Some data)
      else Some data) = Some result"
    show "\<exists>m. (\<forall>j<m. clock dev (Suc (k + j)) - st < DEFAULT_TIMEOUT \<and> reads dev (k + j) \<noteq> [])
           \<and> (\<not> clock dev (Suc (k + m)) - st < DEFAULT_TIMEOUT \<or> reads dev (k + m) = [])
           \<and> result = data @ concat (map (reads dev) [k..<k + m])"
    proof (cases "clock dev (Suc k) - st < DEFAULT_TIMEOUT \<and> reads dev k \<noteq> []")
      case False
      with body have "result = data"
        by (auto simp: Let_def split: if_splits)
      with False show ?thesis
        by (intro exI [of _ 0]) auto
    next
      case True
      with body have "f dev st (Suc k) (data @ reads dev k) = Some result"
        by (simp add: Let_def)
      from IH [OF this] obtain m
        where m: "\<forall>j<m. clock dev (Suc (Suc k + j)) - st < DEFAULT_TIMEOUT
                    \<and> reads dev (Suc k + j) \<noteq> []"
          "\<not> clock dev (Suc (Suc k + m)) - st < DEFAULT_TIMEOUT \<or> reads dev (Suc k + m) = []"
          "result = (data @ reads dev k) @ concat (map (reads dev) [Suc k..<Suc k + m])"
        by blast
      have "\<forall>j<Suc m. clock dev (Suc (k + j)) - st < DEFAULT_TIMEOUT \<and> reads dev (k + j) \<noteq> []"
      proof (intro allI impI)
        fix j assume j: "j < Suc m"
        show "clock dev (Suc (k + j)) - st < DEFAULT_TIMEOUT \<and> reads dev (k + j) \<noteq> []"
        proof (cases j)
          case 0
          with True show ?thesis by simp
        next
          case (Suc i)
          with j have "i < m" by simp
          with m(1) Suc show ?thesis by simp
        qed
      qed
      moreover from m(2) have "\<not> clock dev (Suc (k + Suc m)) - st < DEFAULT_TIMEOUT
          \<or> reads dev (k + Suc m) = []"
        by simp
      moreover from m(3) have "result = data @ concat (map (reads dev) [k..<k + Suc m])"
        by (simp only: upt_shift list.map concat.simps append_assoc)
      ultimately show ?thesis by blast
    qed
  qed
qed

lemma read_until_complete_run:
  assumes "\<forall>j<m. clock dev (Suc j) - clock dev 0 < DEFAULT_TIMEOUT \<and> reads dev j \<noteq> []"
    and "\<not> clock dev (Suc m) - clock dev 0 < DEFAULT_TIMEOUT \<or> reads dev m = []"
  shows "read_until_complete dev = Some (concat (map (reads dev) [0..<m]))"
  using read_loop_run [of m dev 0 "clock dev 0" "[]"] assms
  by (simp add: read_until_complete_def)

lemma read_until_complete_result:
  assumes "read_until_complete dev = Some result"
  shows "\<exists>m. (\<forall>j<m. clock dev (Suc j) - clock dev 0 < DEFAULT_TIMEOUT \<and> reads dev j \<noteq> [])
           \<and> (\<not> clock dev (Suc m) - clock dev 0 < DEFAULT_TIMEOUT \<or> reads dev m = [])
           \<and> result = concat (map (reads dev) [0..<m])"
  using read_loop_result [of dev "clock dev 0" 0 "[]" result] assms
  by (simp add: read_until_complete_def)

lemma read_until_complete_returns:
  assumes "\<not> clock dev (Suc n) - clock dev 0 < DEFAULT_TIMEOUT \<or> reads dev n = []"
  shows "\<exists>result. read_until_complete dev = Some result"
proof -
  let ?stop = "\<lambda>m. \<not> clock dev (Suc m) - clock dev 0 < DEFAULT_TIMEOUT \<or> reads dev m = []"
  define m where "m = (LEAST m. ?stop m)"
  from assms have s: "?stop m"
    unfolding m_def by (rule LeastI [of ?stop n])
  have "\<forall>j<m. clock dev (Suc j) - clock dev 0 < DEFAULT_TIMEOUT \<and> reads dev j \<noteq> []"
  proof (intro allI impI)
    fix j assume "j < m"
    then have "\<not> ?stop j"
      unfolding m_def by (rule not_less_Least)
    then show "clock dev (Suc j) - clock dev 0 < DEFAULT_TIMEOUT \<and> reads dev j \<noteq> []"
      by simp
  qed
  from read_until_complete_run [OF this s] show ?thesis by blast
qed

subsection \<open>Showing the response\<close>

lemma split_str_no_separator: "sep \<notin> set s \<Longrightarrow> split_str s sep = [s]"
  by (induction s) simp_all

lemma length_split_str: "length (split_str s sep) = Suc (count_list s sep)"
  by (induction s) (auto split: list.splits)

lemma decode_None_nonempty: "decode response = None \<Longrightarrow> response \<noteq> []"
  by auto

lemma show_response_undecodable:
  "decode response = None \<Longrightarrow>
     show_response response g = (g, [RawResponse response, DecodeFailure (hex response)])"
  by (frule decode_None_nonempty) (simp add: show_response_def)

lemma show_response_tracks:
  "response \<noteq> [] \<Longrightarrow> decode response = Some text \<Longrightarrow>
     fst (show_response response g)
       = set_tracks (split_str (re_sub text) (of_char CHR ''?'')) g"
  by (simp add: show_response_def Let_def)

lemma encode_read_command: "encode read_command = Some [0x1B, 0x72]"
  by (simp add: read_command_def utf8_encode_def)

lemma read_card_undecodable:
  assumes "decode response = None" and "read_until_complete dev = Some response"
  shows "read_card (Some dev) g
    = Some (Inr (g, [Sent [0x1B, 0x72], RawResponse response, DecodeFailure (hex response),
                     Closed]))"
  using assms
  by (simp add: read_card_def encode_read_command show_response_undecodable)

subsection \<open>Write frames\<close>

lemma encode_append:
  "encode (a @ b) =
     (case encode a of None \<Rightarrow> None
      | Some x \<Rightarrow> (case encode b of None \<Rightarrow> None | Some y \<Rightarrow> Some (x @ y)))"
  by (induction a) (auto split: option.splits)

lemma encode_ascii: "list_all (\<lambda>c. c < 128) s \<Longrightarrow> encode s = Some (map of_nat s)"
  by (induction s) (simp_all add: utf8_encode_def)

lemma encode_generated_write_command:
  assumes "encode track1 = Some b1" and "encode track2 = Some b2"
  shows "encode (generated_write_command track1 track2)
    = Some ([0x1B, 0x77, 0x1B, 0x73, 0x1B, 0x01] @ b1 @ [0x1B, 0x02] @ b2 @ [0x1C])"
  using assms
  by (simp add: generated_write_command_def encode_append utf8_encode_def)

lemma encode_write_command:
  assumes "encode track1 = Some b1" and "encode track2 = Some b2"
  shows "encode (write_command track1 track2 track3)
    = (case encode track3 of
         None \<Rightarrow> None
       | Some b3 \<Rightarrow>
           Some ([0x1B, 0x77, 0x1B, 0x73, 0x1B, 0x01] @ b1 @ [0x1B, 0x02] @ b2 @ [0x1B, 0x03]
                 @ b3 @ [0x3F, 0x1C]))"
  using assms
  by (simp add: write_command_def encode_append utf8_encode_def split: option.splits)

lemma write_frames_differ:
  assumes "encode track1 = Some b1" and "encode track2 = Some b2"
  shows "encode (write_command track1 track2 track3)
     \<noteq> encode (generated_write_command track1 track2)"
proof (cases "encode track3")
  case None
  then show ?thesis
    by (simp add: encode_write_command [OF assms] encode_generated_write_command [OF assms])
next
  case (Some b3)
  have "length ([0x1B, 0x77, 0x1B, 0x73, 0x1B, 0x01] @ b1 @ [0x1B, 0x02] @ b2 @ [0x1B, 0x03]
                 @ b3 @ [0x3F, 0x1C :: byte])
      \<noteq> length ([0x1B, 0x77, 0x1B, 0x73, 0x1B, 0x01] @ b1 @ [0x1B, 0x02] @ b2 @ [0x1C :: byte])"
    by simp
  then have "[0x1B, 0x77, 0x1B, 0x73, 0x1B, 0x01] @ b1 @ [0x1B, 0x02] @ b2 @ [0x1B, 0x03]
                 @ b3 @ [0x3F, 0x1C :: byte]
      \<noteq> [0x1B, 0x77, 0x1B, 0x73, 0x1B, 0x01] @ b1 @ [0x1B, 0x02] @ b2 @ [0x1C :: byte]"
    by (metis (no_types))
  with Some show ?thesis
    by (simp only: encode_write_command [OF assms] encode_generated_write_command [OF assms]
        option.case option.inject not_False_eq_True)
qed

lemma generated_tracks_ascii:
  assumes "list_all (\<lambda>c. c < 128) card_number"
    and "generate_card_tracks card_number card_type = (track1, track2)"
  shows "list_all (\<lambda>c. c < 128) track1 \<and> list_all (\<lambda>c. c < 128) track2"
  using assms by (auto simp: generate_card_tracks_def Let_def)

section \<open>Theorems\<close>

text \<open>
  C3. The frame of the read command is exactly the two bytes 1B 72, and the frame that
  \<open>write_card\<close> builds from the track strings "A", "B", "C" is exactly
  1B 77 1B 73 1B 01 41 1B 02 42 1B 03 43 3F 1C. Encoding is a function of the command
  alone, so the same command always gives the same bytes.
\<close>

theorem command_encoding_exact:
  "encode read_command = Some [0x1B, 0x72]
   \<and> encode (write_command (py ''A'') (py ''B'') (py ''C''))
       = Some [0x1B, 0x77, 0x1B, 0x73, 0x1B, 0x01, 0x41, 0x1B, 0x02, 0x42, 0x1B, 0x03, 0x43,
               0x3F, 0x1C]"
  by (simp add: read_command_def write_command_def utf8_encode_def)

text \<open>
  C2. \<open>parse_response\<close> applies the three rules of the specification in their order: a
  response that starts with ESC and ends with ESC '0' is a success (also when it is only
  those two bytes); otherwise one that starts with ESC and is longer than two bytes is
  classified by its last byte through the fixed table, an unlisted byte giving the unknown
  status with that byte; every other response is no response. The message returned is the
  one of the outcome that \<open>classify_spec\<close>, the rules as the specification words them,
  selects.
\<close>

theorem parse_response_three_rules:
  "parse_response bs = outcome_message (classify_spec bs)"
  by (rule parse_response_classify)

text \<open>
  C6 as the program has it. Classification is total: every byte sequence, the empty one
  included, gets the message of exactly one outcome, the one that the three rules select,
  out of the seven variants Success, ReadWriteError, FormatError, InvalidCommand,
  InvalidSwipeInWriteMode, UnknownStatus and NoResponse. A sequence that does not start
  with ESC is no response; so is a two-byte sequence ESC b unless b is '0'; a sequence that
  starts with ESC and is longer than two bytes is classified by its last byte through the
  table, an unlisted byte giving UnknownStatus of that byte. Of the five listed sequences,
  the empty one, 1B 39 and FF FF are no response, 1B 30 is a success, and 1B followed by one
  or more zero bytes and 31 is a read/write error.
\<close>

theorem parse_response_total:
  "(\<forall>oc. parse_response bs = outcome_message oc \<longleftrightarrow> oc = classify_spec bs)
   \<and> (bs = [] \<or> hd bs \<noteq> 0x1B \<longrightarrow> parse_response bs = outcome_message NoResponse)
   \<and> (b \<noteq> 0x30 \<longrightarrow> parse_response [0x1B, b] = outcome_message NoResponse)
   \<and> (2 < length bs \<and> hd bs = 0x1B \<longrightarrow>
        parse_response bs
          = outcome_message
              (if last bs = 0x30 then Success
               else if last bs = 0x31 then ReadWriteError
               else if last bs = 0x32 then FormatError
               else if last bs = 0x34 then InvalidCommand
               else if last bs = 0x39 then InvalidSwipeInWriteMode
               else UnknownStatus (last bs)))
   \<and> parse_response [] = outcome_message NoResponse
   \<and> parse_response [0x1B, 0x30] = outcome_message Success
   \<and> (1 \<le> n \<longrightarrow> parse_response (0x1B # replicate n 0 @ [0x31]) = outcome_message ReadWriteError)
   \<and> parse_response [0x1B, 0x39] = outcome_message NoResponse
   \<and> parse_response [0xFF, 0xFF] = outcome_message NoResponse"
proof -
  have one: "\<forall>oc. parse_response bs = outcome_message oc \<longleftrightarrow> oc = classify_spec bs"
    using parse_response_classify [of bs] outcome_message_inj by metis
  have no_esc: "parse_response bs = outcome_message NoResponse" if "bs = [] \<or> hd bs \<noteq> 0x1B"
    using that by (auto simp: parse_response_classify classify_spec_def)
  have two: "parse_response [0x1B, b] = outcome_message NoResponse" if "b \<noteq> 0x30"
    using that by (simp add: parse_response_classify classify_spec_def)
  have table: "parse_response bs
          = outcome_message
              (if last bs = 0x30 then Success
               else if last bs = 0x31 then ReadWriteError
               else if last bs = 0x32 then FormatError
               else if last bs = 0x34 then InvalidCommand
               else if last bs = 0x39 then InvalidSwipeInWriteMode
               else UnknownStatus (last bs))"
    if "2 < length bs \<and> hd bs = 0x1B"
  proof -
    from that have "bs \<noteq> []" by auto
    with that show ?thesis
      by (simp add: parse_response_classify classify_spec_def status_table_spec_def)
  qed
  have zeros: "parse_response (0x1B # replicate n 0 @ [0x31]) = outcome_message ReadWriteError"
    if "1 \<le> n"
    using that
    by (simp add: parse_response_classify classify_spec_def status_table_spec_def)
  have fixed: "parse_response [] = outcome_message NoResponse"
    "parse_response [0x1B, 0x30] = outcome_message Success"
    "parse_response [0x1B, 0x39] = outcome_message NoResponse"
    "parse_response [0xFF, 0xFF] = outcome_message NoResponse"
    by (simp_all add: parse_response_classify classify_spec_def)
  from one no_esc two table zeros fixed show ?thesis by blast
qed

theorem parse_response_total_witness:
  "parse_response [0x1B, 0x00, 0x39] = py ''Invalid card swipe when in write mode.''
   \<and> parse_response [0x1B, 0x00, 0xFF] = py ''Unknown status: ff''
   \<and> parse_response [0x41, 0x42, 0x30] = py ''No valid response received.''
   \<and> parse_response [0x1B, 0x31] = py ''No valid response received.''
   \<and> parse_response (0x1B # replicate 3 0 @ [0x31]) = py ''Write or read error.''
   \<and> classify_spec [0x1B, 0x00, 0x39] = InvalidSwipeInWriteMode"
proof (intro conjI)
  have h: "hex [0xFF] = py ''ff''"
    by (simp add: hex_def hex_byte_def hexdigit_def)
  note t = parse_response_total [where bs = "[0x1B, 0x00, 0x39]" and b = "0x31" and n = 3]
  from t show "parse_response [0x1B, 0x00, 0x39] = py ''Invalid card swipe when in write mode.''"
    by simp
  from t show "parse_response [0x1B, 0x31] = py ''No valid response received.''"
    by simp
  from t show "parse_response (0x1B # replicate 3 0 @ [0x31]) = py ''Write or read error.''"
    by simp
  from parse_response_total [where bs = "[0x1B, 0x00, 0xFF]"] h
  show "parse_response [0x1B, 0x00, 0xFF] = py ''Unknown status: ff''"
    by simp
  from parse_response_total [where bs = "[0x41, 0x42, 0x30]"]
  show "parse_response [0x41, 0x42, 0x30] = py ''No valid response received.''"
    by simp
  have p: "parse_response [0x1B, 0x00, 0x39] = outcome_message InvalidSwipeInWriteMode"
    using t by simp
  from t have "\<forall>oc. parse_response [0x1B, 0x00, 0x39] = outcome_message oc
      \<longleftrightarrow> oc = classify_spec [0x1B, 0x00, 0x39]"
    by (rule conjunct1)
  then have "parse_response [0x1B, 0x00, 0x39] = outcome_message InvalidSwipeInWriteMode
      \<longleftrightarrow> InvalidSwipeInWriteMode = classify_spec [0x1B, 0x00, 0x39]"
    by (rule spec)
  with p show "classify_spec [0x1B, 0x00, 0x39] = InvalidSwipeInWriteMode"
    by simp
qed

text \<open>
  C6 as stated fails. The two-byte sequence 1B 39 is not classified through the table
  (\<open>'9'\<close> is InvalidSwipeInWriteMode there) and FF FF is not an unknown status: both are no
  response. And the five variants named are not all there is: 1B 00 32 is a format error,
  whose message is none of theirs (every message of an unknown status starts with
  "Unknown status: ").
\<close>

theorem listed_sequences_not_through_table:
  "parse_response [0x1B, 0x39] = outcome_message NoResponse
   \<and> parse_response [0x1B, 0x39] \<noteq> outcome_message InvalidSwipeInWriteMode
   \<and> parse_response [0xFF, 0xFF] = outcome_message NoResponse
   \<and> parse_response [0xFF, 0xFF] \<noteq> outcome_message (UnknownStatus 0xFF)
   \<and> parse_response [0x1B, 0x00, 0x32] = outcome_message FormatError
   \<and> parse_response [0x1B, 0x00, 0x32]
        \<notin> {outcome_message NoResponse, outcome_message Success,
            outcome_message ReadWriteError, outcome_message InvalidSwipeInWriteMode}
   \<and> take 16 (parse_response [0x1B, 0x00, 0x32]) \<noteq> py ''Unknown status: ''
   \<and> take 16 (outcome_message (UnknownStatus 0x32)) = py ''Unknown status: ''"
  by (simp add: parse_response_classify classify_spec_def status_table_spec_def)

text \<open>
  C1. The generator of \<open>msre206_debug.py\<close> returns a number only after \<open>verify\<close> has
  accepted it, so every number it returns passes the Luhn verification; the number has 15
  digits for American Express and 16 for the other card types, and for each of the four
  supported card types there are random draws on which the generator does return. The
  generator of \<open>msre206_cc.py\<close> builds, for each card type of its tables and every random
  source, a number that \<open>verify\<close> accepts and that has the length of its table (15 for
  American Express, 16 otherwise); the function itself, with its card type Visa, sets the
  tracks from such a number of 16 digits.
\<close>

theorem generated_number_luhn_valid:
  "(generate_credit_card card_type r = Some (Inr number) \<longrightarrow>
      verify number
      \<and> length number = (if card_type = py ''american_express'' then 15 else 16))
   \<and> (card_type \<in> set (map fst prefixes) \<longrightarrow>
        (\<exists>r number. generate_credit_card card_type r = Some (Inr number)))
   \<and> (card_type_cc \<in> set (map fst prefixes_cc) \<longrightarrow>
        (\<exists>number r'. card_number_cc card_type_cc r_cc = Some (number, r') \<and> verify number
           \<and> length number = (if card_type_cc = py ''American Express'' then 15 else 16)))
   \<and> (\<exists>number r'. generate_credit_card_cc r_cc g = Some (set_generated_tracks number r' g)
          \<and> verify number \<and> length number = 16)"
proof (intro conjI impI)
  assume "generate_credit_card card_type r = Some (Inr number)"
  then have s: "verify number
      \<and> length number = (if card_type = py ''american_express'' then 15 else 16)"
    by (rule generate_credit_card_sound)
  from s show "verify number" by (rule conjunct1)
  from s show "length number = (if card_type = py ''american_express'' then 15 else 16)"
    by (rule conjunct2)
next
  assume "card_type \<in> set (map fst prefixes)"
  then show "\<exists>r number. generate_credit_card card_type r = Some (Inr number)"
    by (rule supported_returns)
next
  assume "card_type_cc \<in> set (map fst prefixes_cc)"
  then show "\<exists>number r'. card_number_cc card_type_cc r_cc = Some (number, r') \<and> verify number
           \<and> length number = (if card_type_cc = py ''American Express'' then 15 else 16)"
    by (rule card_number_cc_valid)
next
  have "py ''Visa'' \<in> set (map fst prefixes_cc)"
    by (simp add: prefixes_cc_def)
  from card_number_cc_valid [OF this, of r_cc] obtain number r'
    where "card_number_cc (py ''Visa'') r_cc = Some (number, r')" "verify number"
      "length number = 16"
    by auto
  then show "\<exists>number r'. generate_credit_card_cc r_cc g
        = Some (set_generated_tracks number r' g) \<and> verify number \<and> length number = 16"
    by (auto simp: generate_credit_card_cc_def)
qed

theorem generated_number_luhn_valid_witness:
  "generate_credit_card (py ''visa'') (\<lambda>k. if k = 14 then 5 else 0)
     = Some (Inr (py ''4000000000000051''))
   \<and> verify (py ''4000000000000051'') \<and> length (py ''4000000000000051'') = 16
   \<and> (\<exists>number r'. card_number_cc (py ''Visa'') (\<lambda>k. 0) = Some (number, r')
          \<and> verify number \<and> length number = 16)"
proof -
  have v: "py ''visa'' \<in> set (map fst prefixes)"
    by (simp add: prefixes_def)
  have c: "py ''Visa'' \<in> set (map fst prefixes_cc)"
    by (simp add: prefixes_cc_def)
  note t = generated_number_luhn_valid [of "py ''visa''" "\<lambda>k. if k = 14 then 5 else 0"
      "py ''4000000000000051''" "py ''Visa''" "\<lambda>k. 0"]
  from t visa_returns have "verify (py ''4000000000000051'')
      \<and> length (py ''4000000000000051'') = 16"
    by simp
  moreover from t c have "\<exists>number r'. card_number_cc (py ''Visa'') (\<lambda>k. 0) = Some (number, r')
          \<and> verify number \<and> length number = 16"
    by simp
  ultimately show ?thesis
    using visa_returns by blast
qed

text \<open>
  C4 at the prefix 400000000000000. The check digit of the loop of \<open>msre206_debug.py\<close>,
  computed with the digits at odd offset from the right of the prefix doubled, is 6, and
  \<open>verify\<close> rejects 4000000000000006: the digit that \<open>append\<close> gives, with the place of the
  check digit counted, is 2, and \<open>verify\<close> accepts 4000000000000002. When the random
  digits drawn are all 0, that prefix comes up at every turn of the loop, and the generator
  for Visa never returns.
\<close>

theorem check_digit_wrong_parity:
  "with_check_digit (py ''400000000000000'') = py ''4000000000000006''
   \<and> \<not> verify (py ''4000000000000006'')
   \<and> append_luhn (py ''400000000000000'') = py ''4000000000000002''
   \<and> verify (py ''4000000000000002'')
   \<and> generate_credit_card (py ''visa'') (\<lambda>k. 0) = None"
proof -
  have "with_check_digit (py ''400000000000000'') = py ''4000000000000006''
   \<and> \<not> verify (py ''4000000000000006'')
   \<and> append_luhn (py ''400000000000000'') = py ''4000000000000002''
   \<and> verify (py ''4000000000000002'')"
    by (simp add: with_check_digit_def append_luhn_def verify_def weighted_sum_def weight_def
        int_digit_def decimal_digit)
  with visa_zero_draws show ?thesis by blast
qed

text \<open>
  C7. \<open>read_until_complete\<close> returns the concatenation of the chunks read before the first
  poll at which it stops, all of them non-empty: it stops at the first poll whose clock
  reading is no longer within \<open>DEFAULT_TIMEOUT = 5\<close> of the start, or that returns no bytes.
  Every result it returns has this form, and it returns as soon as there is a poll at which
  the time has elapsed or the device has nothing more to send.
\<close>

theorem read_until_complete_accumulates:
  "((\<forall>j<m. clock dev (Suc j) - clock dev 0 < DEFAULT_TIMEOUT \<and> reads dev j \<noteq> [])
      \<and> (\<not> clock dev (Suc m) - clock dev 0 < DEFAULT_TIMEOUT \<or> reads dev m = [])
     \<longrightarrow> read_until_complete dev = Some (concat (map (reads dev) [0..<m])))
   \<and> (read_until_complete dev = Some result \<longrightarrow>
        (\<exists>m. (\<forall>j<m. clock dev (Suc j) - clock dev 0 < DEFAULT_TIMEOUT \<and> reads dev j \<noteq> [])
           \<and> (\<not> clock dev (Suc m) - clock dev 0 < DEFAULT_TIMEOUT \<or> reads dev m = [])
           \<and> result = concat (map (reads dev) [0..<m])))
   \<and> ((\<not> clock dev (Suc n) - clock dev 0 < DEFAULT_TIMEOUT \<or> reads dev n = []) \<longrightarrow>
        (\<exists>result. read_until_complete dev = Some result))"
proof (intro conjI impI)
  assume "(\<forall>j<m. clock dev (Suc j) - clock dev 0 < DEFAULT_TIMEOUT \<and> reads dev j \<noteq> [])
      \<and> (\<not> clock dev (Suc m) - clock dev 0 < DEFAULT_TIMEOUT \<or> reads dev m = [])"
  then show "read_until_complete dev = Some (concat (map (reads dev) [0..<m]))"
    using read_until_complete_run [of m dev] by blast
next
  assume "read_until_complete dev = Some result"
  then show "\<exists>m. (\<forall>j<m. clock dev (Suc j) - clock dev 0 < DEFAULT_TIMEOUT \<and> reads dev j \<noteq> [])
           \<and> (\<not> clock dev (Suc m) - clock dev 0 < DEFAULT_TIMEOUT \<or> reads dev m = [])
           \<and> result = concat (map (reads dev) [0..<m])"
    by (rule read_until_complete_result)
next
  assume "\<not> clock dev (Suc n) - clock dev 0 < DEFAULT_TIMEOUT \<or> reads dev n = []"
  then show "\<exists>result. read_until_complete dev = Some result"
    by (rule read_until_complete_returns)
qed

theorem read_until_complete_accumulates_witness:
  "read_until_complete
     \<lparr>clock = (\<lambda>k. real k), reads = (\<lambda>k. if k = 0 then [0x1B] else if k = 1 then [0x30] else [])\<rparr>
     = Some [0x1B, 0x30]
   \<and> read_until_complete \<lparr>clock = (\<lambda>k. 3 * real k), reads = (\<lambda>k. [0x41])\<rparr> = Some [0x41]"
proof
  let ?dev = "\<lparr>clock = (\<lambda>k. real k),
               reads = (\<lambda>k. if k = 0 then [0x1B] else if k = 1 then [0x30 :: byte] else [])\<rparr>"
  have "(\<forall>j<2. clock ?dev (Suc j) - clock ?dev 0 < DEFAULT_TIMEOUT \<and> reads ?dev j \<noteq> [])
      \<and> (\<not> clock ?dev (Suc 2) - clock ?dev 0 < DEFAULT_TIMEOUT \<or> reads ?dev 2 = [])"
    by (simp add: DEFAULT_TIMEOUT_def less_Suc_eq numeral_2_eq_2)
  with read_until_complete_accumulates [of 2 ?dev]
  have "read_until_complete ?dev = Some (concat (map (reads ?dev) [0..<2]))"
    by blast
  then show "read_until_complete ?dev = Some [0x1B, 0x30]"
    by (simp add: numeral_2_eq_2)
next
  let ?dev = "\<lparr>clock = (\<lambda>k. 3 * real k), reads = (\<lambda>k. [0x41 :: byte])\<rparr>"
  have "(\<forall>j<1. clock ?dev (Suc j) - clock ?dev 0 < DEFAULT_TIMEOUT \<and> reads ?dev j \<noteq> [])
      \<and> (\<not> clock ?dev (Suc 1) - clock ?dev 0 < DEFAULT_TIMEOUT \<or> reads ?dev 1 = [])"
    by (simp add: DEFAULT_TIMEOUT_def)
  with read_until_complete_accumulates [of 1 ?dev]
  have "read_until_complete ?dev = Some (concat (map (reads ?dev) [0..<1]))"
    by blast
  then show "read_until_complete ?dev = Some [0x41]"
    by simp
qed

text \<open>
  C8. A response that does not decode as text is handled inside \<open>read_card\<close>: the handler
  reports the raw bytes in hexadecimal, the variables of the window stay as they are, and
  \<open>read_card\<close> returns normally, the device closed, with no exception leaving it.
\<close>

theorem undecodable_response_handled:
  "decode response = None \<longrightarrow>
     show_response response g = (g, [RawResponse response, DecodeFailure (hex response)])
     \<and> (read_until_complete dev = Some response \<longrightarrow>
          read_card (Some dev) g
            = Some (Inr (g, [Sent [0x1B, 0x72], RawResponse response,
                             DecodeFailure (hex response), Closed])))"
  by (simp add: show_response_undecodable read_card_undecodable)

theorem undecodable_response_handled_witness:
  "decode [0xFF, 0xFE] = None
   \<and> read_card (Some \<lparr>clock = (\<lambda>k. real k), reads = (\<lambda>k. if k = 0 then [0xFF, 0xFE] else [])\<rparr>)
        \<lparr>track1_var = py ''T1'', track2_var = py ''T2'', track3_var = [], raw_data_var = []\<rparr>
      = Some (Inr (\<lparr>track1_var = py ''T1'', track2_var = py ''T2'', track3_var = [],
                     raw_data_var = []\<rparr>,
                   [Sent [0x1B, 0x72], RawResponse [0xFF, 0xFE], DecodeFailure (py ''fffe''),
                    Closed]))"
proof -
  let ?dev = "\<lparr>clock = (\<lambda>k. real k), reads = (\<lambda>k. if k = 0 then [0xFF, 0xFE :: byte] else [])\<rparr>"
  let ?g = "\<lparr>track1_var = py ''T1'', track2_var = py ''T2'', track3_var = [],
              raw_data_var = []\<rparr>"
  have d: "decode [0xFF, 0xFE] = None"
    by (simp add: utf8_first_def)
  have "(\<forall>j<1. clock ?dev (Suc j) - clock ?dev 0 < DEFAULT_TIMEOUT \<and> reads ?dev j \<noteq> [])
      \<and> (\<not> clock ?dev (Suc 1) - clock ?dev 0 < DEFAULT_TIMEOUT \<or> reads ?dev 1 = [])"
    by (simp add: DEFAULT_TIMEOUT_def)
  then have "read_until_complete ?dev = Some (concat (map (reads ?dev) [0..<1]))"
    using read_until_complete_run [of 1 ?dev] by blast
  then have r: "read_until_complete ?dev = Some [0xFF, 0xFE]"
    by simp
  have h: "hex [0xFF, 0xFE] = py ''fffe''"
    by (simp add: hex_def hex_byte_def hexdigit_def)
  from undecodable_response_handled [of "[0xFF, 0xFE]" ?g ?dev] d r h
  show ?thesis by simp
qed

text \<open>
  C9. When the cleaned text splits into fewer than three fields, \<open>read_card\<close> assigns the
  fields that are there and leaves the variables of the absent fields at their previous
  values: with one field only track 1 is assigned, with two fields tracks 1 and 2, and
  track 3 (as the raw data variable) is untouched in both cases.
\<close>

theorem absent_tracks_unchanged:
  assumes "response \<noteq> []" and "decode response = Some text"
    and "tracks = split_str (re_sub text) (of_char CHR ''?'')"
    and "length tracks < 3"
  shows "track1_var (fst (show_response response g)) = strip (tracks ! 0)
    \<and> (length tracks = 2 \<longrightarrow> track2_var (fst (show_response response g)) = strip (tracks ! 1))
    \<and> (length tracks < 2 \<longrightarrow> track2_var (fst (show_response response g)) = track2_var g)
    \<and> track3_var (fst (show_response response g)) = track3_var g
    \<and> raw_data_var (fst (show_response response g)) = raw_data_var g"
proof -
  from assms(3) have "tracks \<noteq> []"
    by (cases "re_sub text") (auto split: list.splits)
  then have "1 \<le> length tracks"
    by (cases tracks) simp_all
  with assms(4) show ?thesis
    unfolding show_response_tracks [OF assms(1,2)] assms(3) [symmetric]
    by (auto simp: set_tracks_def Let_def)
qed

theorem absent_tracks_unchanged_witness:
  "show_response (map of_char ''AB?CD'')
     \<lparr>track1_var = [], track2_var = py ''OLD2'', track3_var = py ''OLD3'', raw_data_var = []\<rparr>
   = (\<lparr>track1_var = py ''AB'', track2_var = py ''CD'', track3_var = py ''OLD3'',
        raw_data_var = []\<rparr>,
      [RawResponse (map of_char ''AB?CD''), DecodedResponse (py ''AB?CD''),
       CleanedResponse (py ''AB?CD'')])
   \<and> track3_var (fst (show_response (map of_char ''AB?CD'')
        \<lparr>track1_var = [], track2_var = py ''OLD2'', track3_var = py ''OLD3'',
          raw_data_var = []\<rparr>)) = py ''OLD3''"
proof -
  let ?g = "\<lparr>track1_var = [], track2_var = py ''OLD2'', track3_var = py ''OLD3'',
              raw_data_var = []\<rparr>"
  have d: "decode (map of_char ''AB?CD'') = Some (py ''AB?CD'')"
    by (simp add: utf8_first_def)
  have t: "[py ''AB'', py ''CD''] = split_str (re_sub (py ''AB?CD'')) (of_char CHR ''?'')"
    by simp
  have n: "map of_char ''AB?CD'' \<noteq> ([] :: bytes)"
    by simp
  from absent_tracks_unchanged [OF n d t, of ?g]
  have "track3_var (fst (show_response (map of_char ''AB?CD'') ?g)) = py ''OLD3''"
    by simp
  moreover have "show_response (map of_char ''AB?CD'') ?g
   = (\<lparr>track1_var = py ''AB'', track2_var = py ''CD'', track3_var = py ''OLD3'',
        raw_data_var = []\<rparr>,
      [RawResponse (map of_char ''AB?CD''), DecodedResponse (py ''AB?CD''),
       CleanedResponse (py ''AB?CD'')])"
    by (simp add: show_response_def utf8_first_def set_tracks_def strip_def is_space_def
        Let_def)
  ultimately show ?thesis by blast
qed

text \<open>
  C5 as the program has it. The cleaned text is split at every \<open>?\<close>; field 0 becomes
  track 1, field 1, when there is one, track 2, and field 2, when there is one, track 3,
  each stripped of surrounding white space; a track whose field is absent keeps its
  previous value, and nothing else changes. Decoding the text
  "TRACK1DATA?TRACK2DATA?TRACK3DATA?" sets
  track 1 to "TRACK1DATA", track 2 to "TRACK2DATA" and track 3 to "TRACK3DATA". Decoding a
  text whose cleaned form has no \<open>?\<close>, so only one field, sets track 1 to that field and
  leaves everything else, tracks 2 and 3 included, at the previous values: they are empty
  afterwards only if they were empty before.
\<close>

theorem track_split_fields:
  "(response \<noteq> [] \<and> decode response = Some decoded
        \<and> tracks = split_str (re_sub decoded) (of_char CHR ''?'') \<longrightarrow>
      1 \<le> length tracks
      \<and> length tracks = Suc (count_list (re_sub decoded) (of_char CHR ''?''))
      \<and> fst (show_response response g)
        = g\<lparr>track1_var := strip (tracks ! 0),
            track2_var := (if 2 \<le> length tracks then strip (tracks ! 1) else track2_var g),
            track3_var := (if 3 \<le> length tracks then strip (tracks ! 2) else track3_var g)\<rparr>)
   \<and> (response \<noteq> [] \<and> decode response = Some (py ''TRACK1DATA?TRACK2DATA?TRACK3DATA?'') \<longrightarrow>
      fst (show_response response g)
        = g\<lparr>track1_var := py ''TRACK1DATA'', track2_var := py ''TRACK2DATA'',
            track3_var := py ''TRACK3DATA''\<rparr>)
   \<and> (response \<noteq> [] \<and> decode response = Some decoded
        \<and> of_char CHR ''?'' \<notin> set (re_sub decoded) \<longrightarrow>
      fst (show_response response g) = g\<lparr>track1_var := strip (re_sub decoded)\<rparr>)"
proof (intro conjI impI)
  assume a: "response \<noteq> [] \<and> decode response = Some decoded
        \<and> tracks = split_str (re_sub decoded) (of_char CHR ''?'')"
  then have t: "tracks = split_str (re_sub decoded) (of_char CHR ''?'')"
    by simp
  then have n: "length tracks = Suc (count_list (re_sub decoded) (of_char CHR ''?''))"
    by (simp add: length_split_str)
  then show "1 \<le> length tracks"
    by simp
  from n show "length tracks = Suc (count_list (re_sub decoded) (of_char CHR ''?''))" .
  from a have "fst (show_response response g) = set_tracks tracks g"
    by (simp add: show_response_tracks)
  with n show "fst (show_response response g)
        = g\<lparr>track1_var := strip (tracks ! 0),
            track2_var := (if 2 \<le> length tracks then strip (tracks ! 1) else track2_var g),
            track3_var := (if 3 \<le> length tracks then strip (tracks ! 2) else track3_var g)\<rparr>"
    by (simp add: set_tracks_def Let_def)
next
  assume a: "response \<noteq> [] \<and> decode response = Some (py ''TRACK1DATA?TRACK2DATA?TRACK3DATA?'')"
  have "split_str (re_sub (py ''TRACK1DATA?TRACK2DATA?TRACK3DATA?'')) (of_char CHR ''?'')
          = [py ''TRACK1DATA'', py ''TRACK2DATA'', py ''TRACK3DATA'', []]"
    by simp
  with a show "fst (show_response response g)
        = g\<lparr>track1_var := py ''TRACK1DATA'', track2_var := py ''TRACK2DATA'',
            track3_var := py ''TRACK3DATA''\<rparr>"
    by (simp add: show_response_tracks set_tracks_def strip_def is_space_def)
next
  assume a: "response \<noteq> [] \<and> decode response = Some decoded
        \<and> of_char CHR ''?'' \<notin> set (re_sub decoded)"
  then have "split_str (re_sub decoded) (of_char CHR ''?'') = [re_sub decoded]"
    by (simp add: split_str_no_separator)
  with a show "fst (show_response response g) = g\<lparr>track1_var := strip (re_sub decoded)\<rparr>"
    by (simp add: show_response_tracks set_tracks_def)
qed

theorem track_split_fields_witness:
  "fst (show_response (map of_char ''TRACK1DATA?TRACK2DATA?TRACK3DATA?'')
         \<lparr>track1_var = [], track2_var = [], track3_var = [], raw_data_var = []\<rparr>)
     = \<lparr>track1_var = py ''TRACK1DATA'', track2_var = py ''TRACK2DATA'',
         track3_var = py ''TRACK3DATA'', raw_data_var = []\<rparr>
   \<and> fst (show_response (map of_char ''ONLYTRACK1'')
         \<lparr>track1_var = [], track2_var = py ''OLD2'', track3_var = py ''OLD3'',
           raw_data_var = []\<rparr>)
     = \<lparr>track1_var = py ''ONLYTRACK1'', track2_var = py ''OLD2'', track3_var = py ''OLD3'',
         raw_data_var = []\<rparr>
   \<and> fst (show_response (map of_char '' T1?T2 ? T3?T4'')
         \<lparr>track1_var = py ''OLD1'', track2_var = py ''OLD2'', track3_var = py ''OLD3'',
           raw_data_var = py ''RAW''\<rparr>)
     = \<lparr>track1_var = py ''T1'', track2_var = py ''T2'', track3_var = py ''T3'',
         raw_data_var = py ''RAW''\<rparr>
   \<and> fst (show_response (map of_char ''T1?T2'')
         \<lparr>track1_var = py ''OLD1'', track2_var = py ''OLD2'', track3_var = py ''OLD3'',
           raw_data_var = py ''RAW''\<rparr>)
     = \<lparr>track1_var = py ''T1'', track2_var = py ''T2'', track3_var = py ''OLD3'',
         raw_data_var = py ''RAW''\<rparr>"
proof (intro conjI)
  let ?g = "\<lparr>track1_var = [], track2_var = [], track3_var = [], raw_data_var = []\<rparr>"
  have "decode (map of_char ''TRACK1DATA?TRACK2DATA?TRACK3DATA?'')
          = Some (py ''TRACK1DATA?TRACK2DATA?TRACK3DATA?'')"
    by (simp add: utf8_first_def)
  with track_split_fields [where response = "map of_char ''TRACK1DATA?TRACK2DATA?TRACK3DATA?''"
      and g = ?g]
  show "fst (show_response (map of_char ''TRACK1DATA?TRACK2DATA?TRACK3DATA?'') ?g)
     = \<lparr>track1_var = py ''TRACK1DATA'', track2_var = py ''TRACK2DATA'',
         track3_var = py ''TRACK3DATA'', raw_data_var = []\<rparr>"
    by simp
next
  let ?g = "\<lparr>track1_var = [], track2_var = py ''OLD2'', track3_var = py ''OLD3'',
              raw_data_var = []\<rparr>"
  have d: "decode (map of_char ''ONLYTRACK1'') = Some (py ''ONLYTRACK1'')"
    by (simp add: utf8_first_def)
  have c: "re_sub (py ''ONLYTRACK1'') = py ''ONLYTRACK1''"
    by simp
  have s: "strip (py ''ONLYTRACK1'') = py ''ONLYTRACK1''"
    by (simp add: strip_def is_space_def)
  from track_split_fields [where response = "map of_char ''ONLYTRACK1''" and g = ?g
      and decoded = "py ''ONLYTRACK1''"] d
  have "fst (show_response (map of_char ''ONLYTRACK1'') ?g)
          = ?g\<lparr>track1_var := strip (re_sub (py ''ONLYTRACK1''))\<rparr>"
    by (simp add: c)
  then show "fst (show_response (map of_char ''ONLYTRACK1'') ?g)
     = \<lparr>track1_var = py ''ONLYTRACK1'', track2_var = py ''OLD2'', track3_var = py ''OLD3'',
         raw_data_var = []\<rparr>"
    by (simp only: c s) simp
next
  let ?g = "\<lparr>track1_var = py ''OLD1'', track2_var = py ''OLD2'', track3_var = py ''OLD3'',
              raw_data_var = py ''RAW''\<rparr>"
  have d: "decode (map of_char '' T1?T2 ? T3?T4'') = Some (py '' T1?T2 ? T3?T4'')"
    by (simp add: utf8_first_def)
  have t: "[py '' T1'', py ''T2 '', py '' T3'', py ''T4'']
             = split_str (re_sub (py '' T1?T2 ? T3?T4'')) (of_char CHR ''?'')"
    by simp
  have n: "map of_char '' T1?T2 ? T3?T4'' \<noteq> ([] :: bytes)"
    by simp
  from track_split_fields [where response = "map of_char '' T1?T2 ? T3?T4''" and g = ?g
      and decoded = "py '' T1?T2 ? T3?T4''"
      and tracks = "[py '' T1'', py ''T2 '', py '' T3'', py ''T4'']"] n d t
  have "fst (show_response (map of_char '' T1?T2 ? T3?T4'') ?g)
        = ?g\<lparr>track1_var := strip (py '' T1''), track2_var := strip (py ''T2 ''),
              track3_var := strip (py '' T3'')\<rparr>"
    by simp
  then show "fst (show_response (map of_char '' T1?T2 ? T3?T4'') ?g)
     = \<lparr>track1_var = py ''T1'', track2_var = py ''T2'', track3_var = py ''T3'',
         raw_data_var = py ''RAW''\<rparr>"
    by (simp add: strip_def is_space_def)
next
  let ?g = "\<lparr>track1_var = py ''OLD1'', track2_var = py ''OLD2'', track3_var = py ''OLD3'',
              raw_data_var = py ''RAW''\<rparr>"
  have d: "decode (map of_char ''T1?T2'') = Some (py ''T1?T2'')"
    by (simp add: utf8_first_def)
  have t: "[py ''T1'', py ''T2''] = split_str (re_sub (py ''T1?T2'')) (of_char CHR ''?'')"
    by simp
  have n: "map of_char ''T1?T2'' \<noteq> ([] :: bytes)"
    by simp
  from track_split_fields [where response = "map of_char ''T1?T2''" and g = ?g
      and decoded = "py ''T1?T2''" and tracks = "[py ''T1'', py ''T2'']"] n d t
  have "fst (show_response (map of_char ''T1?T2'') ?g)
        = ?g\<lparr>track1_var := strip (py ''T1''), track2_var := strip (py ''T2'')\<rparr>"
    by simp
  then show "fst (show_response (map of_char ''T1?T2'') ?g)
     = \<lparr>track1_var = py ''T1'', track2_var = py ''T2'', track3_var = py ''OLD3'',
         raw_data_var = py ''RAW''\<rparr>"
    by (simp add: strip_def is_space_def)
qed

text \<open>
  C5 as stated fails: after a card with three tracks has been shown, decoding the text
  "ONLYTRACK1" leaves the old tracks 2 and 3 in place; they are not empty.
\<close>

theorem one_field_keeps_old_tracks:
  "track2_var (fst (show_response (map of_char ''ONLYTRACK1'')
       \<lparr>track1_var = py ''OLD1'', track2_var = py ''OLD2'', track3_var = py ''OLD3'',
         raw_data_var = []\<rparr>)) = py ''OLD2''
   \<and> track3_var (fst (show_response (map of_char ''ONLYTRACK1'')
       \<lparr>track1_var = py ''OLD1'', track2_var = py ''OLD2'', track3_var = py ''OLD3'',
         raw_data_var = []\<rparr>)) = py ''OLD3''
   \<and> py ''OLD2'' \<noteq> [] \<and> py ''OLD3'' \<noteq> []"
  by (simp add: show_response_def utf8_first_def set_tracks_def Let_def)

text \<open>
  C10. For the tracks that \<open>generate_card_tracks\<close> makes from a card number of ASCII
  characters, the frame of \<open>write_card_with_generated_number\<close> is
  ESC w ESC s ESC 01 track1 ESC 02 track2 FS. The frame that \<open>write_card\<close> builds for the same
  two tracks and any third track goes on after track2 with ESC 03, the third track and
  \<open>?\<close> before FS, so the two frames are never the same.
\<close>

theorem generated_write_frame:
  assumes "list_all (\<lambda>c. c < 128) card_number"
    and "generate_card_tracks card_number card_type = (track1, track2)"
  shows "encode (generated_write_command track1 track2)
      = Some ([0x1B, 0x77, 0x1B, 0x73, 0x1B, 0x01] @ map of_nat track1 @ [0x1B, 0x02]
              @ map of_nat track2 @ [0x1C])
    \<and> (encode track3 = Some b3 \<longrightarrow>
         encode (write_command track1 track2 track3)
           = Some ([0x1B, 0x77, 0x1B, 0x73, 0x1B, 0x01] @ map of_nat track1 @ [0x1B, 0x02]
                   @ map of_nat track2 @ [0x1B, 0x03] @ b3 @ [0x3F, 0x1C]))
    \<and> encode (write_command track1 track2 track3)
         \<noteq> encode (generated_write_command track1 track2)"
proof -
  from generated_tracks_ascii [OF assms]
  have e: "encode track1 = Some (map of_nat track1)" "encode track2 = Some (map of_nat track2)"
    by (simp_all add: encode_ascii)
  show ?thesis
    using encode_generated_write_command [OF e] encode_write_command [OF e, of track3]
      write_frames_differ [OF e, of track3]
    by simp
qed

theorem generated_write_frame_witness:
  "generate_card_tracks (py ''4000000000000051'') (py ''visa'')
     = (py ''%B4000000000000051^CARDHOLDER/NAME^2512101?'', py '';4000000000000051=2512101?'')
   \<and> encode (generated_write_command (py ''%B4000000000000051^CARDHOLDER/NAME^2512101?'')
         (py '';4000000000000051=2512101?''))
      = Some ([0x1B, 0x77, 0x1B, 0x73, 0x1B, 0x01]
              @ map of_char ''%B4000000000000051^CARDHOLDER/NAME^2512101?'' @ [0x1B, 0x02]
              @ map of_char '';4000000000000051=2512101?'' @ [0x1C])
   \<and> encode (write_command (py ''%B4000000000000051^CARDHOLDER/NAME^2512101?'')
         (py '';4000000000000051=2512101?'') [])
      = Some ([0x1B, 0x77, 0x1B, 0x73, 0x1B, 0x01]
              @ map of_char ''%B4000000000000051^CARDHOLDER/NAME^2512101?'' @ [0x1B, 0x02]
              @ map of_char '';4000000000000051=2512101?'' @ [0x1B, 0x03, 0x3F, 0x1C])"
proof -
  have a: "list_all (\<lambda>c. c < 128) (py ''4000000000000051'')"
    by simp
  have t: "generate_card_tracks (py ''4000000000000051'') (py ''visa'')
     = (py ''%B4000000000000051^CARDHOLDER/NAME^2512101?'', py '';4000000000000051=2512101?'')"
    by (simp add: generate_card_tracks_def)
  have e: "encode [] = Some []"
    by simp
  from generated_write_frame [OF a t, of "[]" "[]"] e t show ?thesis
    by simp
qed

end
